theory Spec2Isabelle
  imports Main
begin

section \<open>Python string primitives used by the parsers\<close>

text \<open>
  A Python \<open>str\<close> is modelled as a \<open>string\<close>; a \<open>char\<close> stands for the code point
  of the same number (0 to 255).  On that range \<open>str.isspace\<close>, \<open>str.isdigit\<close> and
  \<open>str.lower\<close> are as below.
\<close>

definition isspace :: "char \<Rightarrow> bool" where
  "isspace c = (c \<in> set [CHR 0x09, CHR 0x0A, CHR 0x0B, CHR 0x0C, CHR 0x0D,
                           CHR 0x1C, CHR 0x1D, CHR 0x1E, CHR 0x1F, CHR 0x20,
                           CHR 0x85, CHR 0xA0])"

definition isdigit :: "char \<Rightarrow> bool" where
  "isdigit c = (c \<in> set (''0123456789'' @ [CHR 0xB2, CHR 0xB3, CHR 0xB9]))"

definition lower_char :: "char \<Rightarrow> char" where
  "lower_char c = (let n = (of_char c :: nat) in
     if (65 \<le> n \<and> n \<le> 90) \<or> (192 \<le> n \<and> n \<le> 222 \<and> n \<noteq> 215)
     then char_of (n + 32) else c)"

definition lower :: "string \<Rightarrow> string" where
  "lower s = map lower_char s"

definition lstrip :: "string \<Rightarrow> string" where
  "lstrip s = dropWhile isspace s"

definition rstrip :: "string \<Rightarrow> string" where
  "rstrip s = rev (dropWhile isspace (rev s))"

text \<open>\<open>s.strip()\<close>: whitespace removed at both ends.\<close>

definition strip :: "string \<Rightarrow> string" where
  "strip s = rstrip (lstrip s)"

text \<open>\<open>s.split('\n')\<close>: always at least one piece.\<close>

fun split_nl :: "string \<Rightarrow> string list" where
  "split_nl [] = [[]]"
| "split_nl (c # cs) =
     (if c = CHR ''\<newline>'' then [] # split_nl cs
      else (case split_nl cs of [] \<Rightarrow> [[c]] | l # ls \<Rightarrow> (c # l) # ls))"

text \<open>\<open>sep.join(xs)\<close>.\<close>

fun join :: "string \<Rightarrow> string list \<Rightarrow> string" where
  "join sep [] = []"
| "join sep [x] = x"
| "join sep (x # y # ys) = x @ sep @ join sep (y # ys)"

definition startswith :: "string \<Rightarrow> string \<Rightarrow> bool" where
  "startswith s p = (take (length p) s = p)"

text \<open>\<open>sub in s\<close>.\<close>

fun contains :: "string \<Rightarrow> string \<Rightarrow> bool" where
  "contains sub [] = (sub = [])"
| "contains sub (c # cs) = (startswith (c # cs) sub \<or> contains sub cs)"

text \<open>\<open>s.split(sep)[0]\<close> for a non-empty separator: the text before its first occurrence.\<close>

fun before_sep :: "string \<Rightarrow> string \<Rightarrow> string" where
  "before_sep sep [] = []"
| "before_sep sep (c # cs) = (if startswith (c # cs) sep then [] else c # before_sep sep cs)"

text \<open>\<open>s.split(c, 1)\<close>: one piece, or the text before and after the first \<open>c\<close>.\<close>

definition split1 :: "char \<Rightarrow> string \<Rightarrow> string list" where
  "split1 c s =
     (if c \<in> set s then [takeWhile (\<lambda>x. x \<noteq> c) s, tl (dropWhile (\<lambda>x. x \<noteq> c) s)] else [s])"

definition digit_char :: "nat \<Rightarrow> char" where
  "digit_char d = ''0123456789'' ! d"

text \<open>The decimal rendering of a non-negative integer in an f-string.\<close>

function str_nat :: "nat \<Rightarrow> string" where
  "str_nat n = (if n < 10 then [digit_char n] else str_nat (n div 10) @ [digit_char (n mod 10)])"
  by pat_completeness auto
termination
  by (relation "measure id") auto

declare str_nat.simps [simp del]

datatype py_error = IndexError

text \<open>\<open>s[0]\<close>, which raises on the empty string.\<close>

definition first_char :: "string \<Rightarrow> py_error + char" where
  "first_char s = (case s of [] \<Rightarrow> Inl IndexError | c # _ \<Rightarrow> Inr c)"

section \<open>The test case generator\<close>

subsection \<open>\<open>TestCaseGenerator._format_elements_for_prompt\<close>\<close>

text \<open>
  The element record read from the JSON file.  An attribute mapping holds the string
  attributes of an element; a key that may be missing from a mapping is an \<open>option\<close>.
\<close>

type_synonym attrs = "string \<rightharpoonup> string"

text \<open>\<open>d.get(k, default)\<close>.\<close>

definition get_attr :: "attrs \<Rightarrow> string \<Rightarrow> string \<Rightarrow> string" where
  "get_attr d k dflt = (case d k of None \<Rightarrow> dflt | Some v \<Rightarrow> v)"

text \<open>
  An entry of \<open>inputs\<close>: its string attributes, the truth value of
  \<open>get('required', False)\<close> and the list \<open>get('options', [])\<close>.
\<close>

record input_field =
  input_attrs :: attrs
  input_required :: bool
  input_options :: "attrs list"

text \<open>An entry of \<open>forms\<close>, with the list \<open>get('inputs', [])\<close>.\<close>

record form_element =
  form_attrs :: attrs
  form_inputs :: "input_field list"

text \<open>An entry of \<open>navigation\<close>, with the list \<open>get('items', [])\<close>.\<close>

record nav_menu =
  nav_attrs :: attrs
  nav_items :: "attrs list"

record page_structure =
  ps_headers :: "attrs list option"
  ps_navigation :: "nav_menu list option"

record metadata =
  md_description :: "string option"
  md_page_structure :: "page_structure option"

record elements =
  el_metadata :: "metadata option"
  el_buttons :: "attrs list option"
  el_links :: "attrs list option"
  el_inputs :: "input_field list option"
  el_forms :: "form_element list option"

definition format_button :: "nat \<Rightarrow> attrs \<Rightarrow> string" where
  "format_button idx button =
     ''  '' @ str_nat idx @ ''. '' @ get_attr button ''text'' ''[No text]'' @
     '' ('' @ get_attr button ''element_type'' ''button'' @
     '', id='' @ get_attr button ''id'' ''[No ID]'' @
     '', class='' @ get_attr button ''class'' ''[No class]'' @ '')''"

definition format_link :: "nat \<Rightarrow> attrs \<Rightarrow> string" where
  "format_link idx link =
     ''  '' @ str_nat idx @ ''. '' @ get_attr link ''text'' ''[No text]'' @
     '' (href='' @ get_attr link ''href'' ''[No href]'' @
     '', target='' @ get_attr link ''target'' ''_self'' @ '')''"

text \<open>The text of the options of a select element.\<close>

definition options_text :: "attrs list \<Rightarrow> string" where
  "options_text options =
     (let options_count = length options;
          text = join '', '' (map (\<lambda>opt. get_attr opt ''text'' ''Option'') (take 5 options))
      in if options_count > 5
         then text @ '', ... ('' @ str_nat (options_count - 5) @ '' more)''
         else text)"

text \<open>The entries appended for one input field: one, or none for an unknown element type.\<close>

definition format_input :: "nat \<Rightarrow> input_field \<Rightarrow> string list" where
  "format_input idx input_field =
     (let input_type = get_attr (input_attrs input_field) ''element_type'' ''input'' in
      if input_type = ''input'' then
        [''  '' @ str_nat idx @ ''. '' @ get_attr (input_attrs input_field) ''type'' ''text'' @
         '' input (name='' @ get_attr (input_attrs input_field) ''name'' ''[No name]'' @
         '', placeholder='' @
         get_attr (input_attrs input_field) ''placeholder'' ''[No placeholder]'' @
         '', '' @ (if input_required input_field then ''required'' else ''optional'') @ '')'']
      else if input_type = ''textarea'' then
        [''  '' @ str_nat idx @ ''. textarea (name='' @
         get_attr (input_attrs input_field) ''name'' ''[No name]'' @
         '', placeholder='' @
         get_attr (input_attrs input_field) ''placeholder'' ''[No placeholder]'' @
         '', rows='' @ get_attr (input_attrs input_field) ''rows'' ''default'' @ '')'']
      else if input_type = ''select'' then
        [''  '' @ str_nat idx @ ''. select dropdown (name='' @
         get_attr (input_attrs input_field) ''name'' ''[No name]'' @
         '', options: '' @ options_text (input_options input_field) @ '')'']
      else [])"

definition format_form_input :: "nat \<Rightarrow> input_field \<Rightarrow> string" where
  "format_form_input i input_field =
     (let input_type = get_attr (input_attrs input_field) ''element_type'' ''input'';
          field_type = (if input_type = ''input''
                        then get_attr (input_attrs input_field) ''type'' ''text''
                        else input_type)
      in ''    '' @ str_nat i @ ''. '' @ field_type @
         '' (name='' @ get_attr (input_attrs input_field) ''name'' ''[No name]'' @ '')'')"

definition format_form :: "nat \<Rightarrow> form_element \<Rightarrow> string list" where
  "format_form idx form =
     (''  '' @ str_nat idx @ ''. form (id='' @ get_attr (form_attrs form) ''id'' ''[No ID]'' @
      '', method='' @ get_attr (form_attrs form) ''method'' ''get'' @
      '', action='' @ get_attr (form_attrs form) ''action'' ''[No action]'' @
      '', '' @ str_nat (length (form_inputs form)) @ '' inputs)'') #
     (if form_inputs form \<noteq> []
      then map (\<lambda>(i, input_field). format_form_input i input_field)
             (enumerate 1 (form_inputs form))
      else [])"

definition format_header :: "attrs \<Rightarrow> string" where
  "format_header header =
     ''  - '' @ get_attr header ''level'' ''h'' @ '': '' @ get_attr header ''text'' ''[No text]''"

definition format_nav_item :: "nat \<Rightarrow> attrs \<Rightarrow> string" where
  "format_nav_item i item =
     ''    '' @ str_nat i @ ''. '' @ get_attr item ''text'' ''[No text]'' @
     '' (href='' @ get_attr item ''href'' ''[No href]'' @ '')''"

definition format_nav :: "nav_menu \<Rightarrow> string list" where
  "format_nav nav =
     (let items = nav_items nav; items_count = length items in
      (''  - Navigation (id='' @ get_attr (nav_attrs nav) ''id'' ''[No ID]'' @
       '', '' @ str_nat items_count @ '' items)'') #
      map (\<lambda>(i, item). format_nav_item i item) (enumerate 1 (take 5 items)) @
      (if items_count > 5
       then [''    ... ('' @ str_nat (items_count - 5) @ '' more items)'']
       else []))"

text \<open>The entries of a category: its header, then what \<open>fmt\<close> appends for each element.\<close>

definition category_entries ::
  "string \<Rightarrow> 'a list option \<Rightarrow> ('a list \<Rightarrow> string list) \<Rightarrow> string list" where
  "category_entries header sequence fmt =
     (case sequence of
        None \<Rightarrow> []
      | Some xs \<Rightarrow> if xs \<noteq> [] then header # fmt xs else [])"

text \<open>The list \<open>formatted_elements\<close> when the method returns.\<close>

definition formatted_elements :: "elements \<Rightarrow> string list" where
  "formatted_elements e =
     (case el_metadata e of
        None \<Rightarrow> []
      | Some md \<Rightarrow>
          (case md_description md of
             None \<Rightarrow> []
           | Some d \<Rightarrow> [''SITE DESCRIPTION: '' @ d @ ''\<newline>''])) @
     category_entries ''BUTTONS:'' (el_buttons e)
       (\<lambda>xs. map (\<lambda>(idx, button). format_button idx button) (enumerate 1 xs)) @
     category_entries ''\<newline>LINKS:'' (el_links e)
       (\<lambda>xs. map (\<lambda>(idx, link). format_link idx link) (enumerate 1 xs)) @
     category_entries ''\<newline>INPUT FIELDS:'' (el_inputs e)
       (\<lambda>xs. concat (map (\<lambda>(idx, input_field). format_input idx input_field)
                         (enumerate 1 xs))) @
     category_entries ''\<newline>FORMS:'' (el_forms e)
       (\<lambda>xs. concat (map (\<lambda>(idx, form). format_form idx form) (enumerate 1 xs))) @
     (case el_metadata e of
        None \<Rightarrow> []
      | Some md \<Rightarrow>
          (case md_page_structure md of
             None \<Rightarrow> []
           | Some ps \<Rightarrow>
               category_entries ''\<newline>PAGE HEADERS:'' (ps_headers ps) (map format_header) @
               category_entries ''\<newline>NAVIGATION MENUS:'' (ps_navigation ps)
                 (\<lambda>xs. concat (map format_nav xs))))"

definition format_elements_for_prompt :: "elements \<Rightarrow> string" where
  "format_elements_for_prompt e = join ''\<newline>'' (formatted_elements e)"

subsection \<open>\<open>TestCaseGenerator._process_ai_response\<close>\<close>

record test_case =
  test_case_id :: string
  test_scenario :: string
  steps_to_execute :: "string list"
  expected_result :: string

datatype section_name = StepsToExecute | ExpectedResult

text \<open>
  The variables of the loop: the generator's \<open>self.test_cases\<close>, \<open>current_test_case\<close>
  and \<open>section\<close>.
\<close>

record parse_state =
  test_cases :: "test_case list"
  current_test_case :: "test_case option"
  cur_section :: "section_name option"

definition is_header :: "string \<Rightarrow> bool" where
  "is_header line =
     ((startswith line ''Test Case'' \<and> CHR '':'' \<in> set line) \<or>
      (startswith line ''TC-'' \<and> CHR '':'' \<in> set line))"

definition new_test_case :: "string \<Rightarrow> test_case" where
  "new_test_case line =
     (let parts = split1 CHR '':'' line;
          test_id = strip (parts ! 0);
          scenario = (if length parts > 1 then strip (parts ! 1) else '''')
      in \<lparr>test_case_id = test_id, test_scenario = scenario,
          steps_to_execute = [], expected_result = ''''\<rparr>)"

definition is_steps_header :: "string \<Rightarrow> bool" where
  "is_steps_header line =
     (startswith (lower line) ''steps to execute'' \<or> lower line = ''steps'')"

definition is_expected_header :: "string \<Rightarrow> bool" where
  "is_expected_header line =
     (startswith (lower line) ''expected result'' \<or> lower line = ''expected'')"

text \<open>The branch for a line of the steps section; \<open>line\<close> is the stripped line.\<close>

definition add_step_line :: "string list \<Rightarrow> string \<Rightarrow> py_error + string list" where
  "add_step_line steps line =
     (case first_char line of
        Inl e \<Rightarrow> Inl e
      | Inr c \<Rightarrow>
          if isdigit c \<and> contains ''. '' line then
            (let step_number = before_sep ''. '' line;
                 step_text = strip (drop (length step_number + 2) line)
             in Inr (steps @ [step_text]))
          else if steps \<noteq> [] then
            (if \<not> isdigit c \<or> \<not> contains ''. '' line
             then Inr (butlast steps @ [last steps @ '' '' @ line])
             else Inr (steps @ [line]))
          else Inr (steps @ [line]))"

definition add_expected_line :: "string \<Rightarrow> string \<Rightarrow> string" where
  "add_expected_line expected line =
     (if expected \<noteq> [] then expected @ '' '' @ line else line)"

text \<open>One iteration of the loop over the lines.\<close>

definition process_line :: "parse_state \<Rightarrow> string \<Rightarrow> py_error + parse_state" where
  "process_line st raw =
     (let line = strip raw in
      if line = [] then Inr st
      else if is_header line then
        Inr \<lparr>test_cases = (case current_test_case st of
                              None \<Rightarrow> test_cases st
                            | Some cur \<Rightarrow> test_cases st @ [cur]),
             current_test_case = Some (new_test_case line),
             cur_section = None\<rparr>
      else if is_steps_header line then Inr (st\<lparr>cur_section := Some StepsToExecute\<rparr>)
      else if is_expected_header line then Inr (st\<lparr>cur_section := Some ExpectedResult\<rparr>)
      else
        (case (cur_section st, current_test_case st) of
           (Some StepsToExecute, Some cur) \<Rightarrow>
             (case add_step_line (steps_to_execute cur) line of
                Inl e \<Rightarrow> Inl e
              | Inr steps' \<Rightarrow>
                  Inr (st\<lparr>current_test_case := Some (cur\<lparr>steps_to_execute := steps'\<rparr>)\<rparr>))
         | (Some ExpectedResult, Some cur) \<Rightarrow>
             Inr (st\<lparr>current_test_case :=
                        Some (cur\<lparr>expected_result :=
                                     add_expected_line (expected_result cur) line\<rparr>)\<rparr>)
         | _ \<Rightarrow> Inr st))"

fun process_lines :: "parse_state \<Rightarrow> string list \<Rightarrow> py_error + parse_state" where
  "process_lines st [] = Inr st"
| "process_lines st (l # ls) =
     (case process_line st l of Inl e \<Rightarrow> Inl e | Inr st' \<Rightarrow> process_lines st' ls)"

text \<open>What a call leaves behind: the generator's list, the value returned, the lines printed.\<close>

record process_result =
  self_test_cases :: "test_case list"
  returned :: "test_case list"
  printed :: "string list"

definition process_ai_response :: "test_case list \<Rightarrow> string \<Rightarrow> py_error + process_result" where
  "process_ai_response self_tcs response =
     (if strip response = [] then
        Inr \<lparr>self_test_cases = self_tcs, returned = [],
             printed = [''Warning: Empty AI response received.'']\<rparr>
      else
        (case process_lines \<lparr>test_cases = self_tcs, current_test_case = None,
                              cur_section = None\<rparr>
                (split_nl (strip response)) of
           Inl e \<Rightarrow> Inl e
         | Inr st \<Rightarrow>
             (let tcs = (case current_test_case st of
                           None \<Rightarrow> test_cases st
                         | Some cur \<Rightarrow> test_cases st @ [cur])
              in Inr \<lparr>self_test_cases = tcs, returned = tcs, printed = []\<rparr>)))"

subsection \<open>\<open>TestCaseGenerator.generate_test_cases\<close>, from the pasted reply on\<close>

text \<open>
  The prompt is built and shown, then the reply is read; what follows is the call of
  \<open>_process_ai_response\<close> and the report on \<open>self.test_cases\<close>.
\<close>

definition generation_report :: "test_case list \<Rightarrow> string list" where
  "generation_report tcs =
     (if tcs = [] then
        [''\<newline>Warning: No test cases were extracted from the AI response.'',
         ''Please check the AI response format or modify the processing logic.'']
      else
        [''\<newline>Successfully generated '' @ str_nat (length tcs) @ '' test cases.''])"

definition generate_test_cases_from_reply ::
  "test_case list \<Rightarrow> string \<Rightarrow> py_error + process_result" where
  "generate_test_cases_from_reply self_tcs ai_response =
     (case process_ai_response self_tcs ai_response of
        Inl e \<Rightarrow> Inl e
      | Inr r \<Rightarrow>
          Inr \<lparr>self_test_cases = self_test_cases r, returned = self_test_cases r,
               printed = printed r @ generation_report (self_test_cases r)\<rparr>)"

subsection \<open>\<open>TestCaseGenerator.save_test_cases\<close>\<close>

text \<open>The loop \<open>steps_text += f"{i}. {step}\n"\<close> over \<open>enumerate(steps, 1)\<close>.\<close>

fun numbered_steps :: "nat \<Rightarrow> string list \<Rightarrow> string" where
  "numbered_steps i [] = []"
| "numbered_steps i (step # rest) =
     (str_nat i @ ''. '' @ step @ ''\<newline>'') @ numbered_steps (Suc i) rest"

definition steps_text :: "string list \<Rightarrow> string" where
  "steps_text steps = strip (numbered_steps 1 steps)"

text \<open>A row of the data frame: its columns, in order, with their values.\<close>

type_synonym row = "(string \<times> string) list"

definition processed_case :: "test_case \<Rightarrow> row" where
  "processed_case tc =
     [(''Test Case ID'', test_case_id tc),
      (''Test Scenario'', test_scenario tc),
      (''Steps to Execute'', steps_text (steps_to_execute tc)),
      (''Expected Result'', expected_result tc)]"

text \<open>
  An exception raised by the file system or the spreadsheet library, with its message:
  an instance of \<open>Exception\<close>, or one that is only a \<open>BaseException\<close>
  (\<open>KeyboardInterrupt\<close>, \<open>SystemExit\<close>).
\<close>

datatype py_exception = ExceptionInstance string | BaseExceptionOnly string

text \<open>
  The outside world of the two save methods: what \<open>os.makedirs\<close> on the parent
  directory of a path and \<open>DataFrame.to_excel\<close> do, \<open>None\<close> for success.
\<close>

record file_system =
  makedirs_parent :: "string \<Rightarrow> py_exception option"
  to_excel :: "string \<Rightarrow> row list \<Rightarrow> py_exception option"

text \<open>The handler \<open>except Exception as e\<close> of \<open>save_test_cases\<close>.\<close>

definition save_handler :: "py_exception \<Rightarrow> py_exception + (bool \<times> string list)" where
  "save_handler e =
     (case e of
        ExceptionInstance msg \<Rightarrow> Inr (False, [''Error saving test cases to Excel: '' @ msg])
      | BaseExceptionOnly msg \<Rightarrow> Inl e)"

text \<open>The value returned and the lines printed, or the exception that leaves the method.\<close>

definition save_test_cases ::
  "file_system \<Rightarrow> test_case list \<Rightarrow> string \<Rightarrow> py_exception + (bool \<times> string list)" where
  "save_test_cases fs self_tcs output_path =
     (if self_tcs = [] then Inr (False, [''Error: No test cases to save.''])
      else
        (case makedirs_parent fs output_path of
           Some e \<Rightarrow> save_handler e
         | None \<Rightarrow>
             (case to_excel fs output_path (map processed_case self_tcs) of
                Some e \<Rightarrow> save_handler e
              | None \<Rightarrow>
                  Inr (True, [''\<newline>Test cases successfully saved to: '' @ output_path]))))"

section \<open>The test script generator\<close>

subsection \<open>\<open>TestScriptGenerator._extract_code_from_response\<close>\<close>

definition is_fence_open :: "string \<Rightarrow> bool" where
  "is_fence_open line =
     (startswith (strip line) ''```python'' \<or> strip line = ''```python'')"

definition is_fence_close :: "string \<Rightarrow> bool" where
  "is_fence_close line = (strip line = ''```'')"

text \<open>The first loop: the lines appended to \<open>code_lines\<close>, from the flag \<open>in_code_block\<close>.\<close>

fun fence_scan :: "bool \<Rightarrow> string list \<Rightarrow> string list" where
  "fence_scan in_code_block [] = []"
| "fence_scan in_code_block (line # rest) =
     (if is_fence_open line then fence_scan True rest
      else if is_fence_close line \<and> in_code_block then fence_scan False rest
      else if in_code_block then line # fence_scan in_code_block rest
      else fence_scan in_code_block rest)"

definition is_import_line :: "string \<Rightarrow> bool" where
  "is_import_line line =
     (startswith (strip line) ''import '' \<or> startswith (strip line) ''from '')"

text \<open>The second loop: the lines appended from the flag \<open>in_code\<close>.\<close>

fun import_scan :: "bool \<Rightarrow> string list \<Rightarrow> string list" where
  "import_scan in_code [] = []"
| "import_scan in_code (line # rest) =
     (let in_code' = (if is_import_line line then True else in_code)
      in if in_code' then line # import_scan in_code' rest else import_scan in_code' rest)"

definition extract_code_from_response :: "string \<Rightarrow> string" where
  "extract_code_from_response response =
     (let lines = split_nl (strip response);
          code_lines = fence_scan False lines;
          code_lines = (if code_lines = [] then import_scan False lines else code_lines);
          code_lines = (if code_lines = [] then lines else code_lines)
      in join ''\<newline>'' code_lines)"

subsection \<open>\<open>TestScriptGenerator.save_scripts\<close>\<close>

record test_script =
  script_test_case_id :: string
  script_test_scenario :: string
  python_selenium_code :: string

definition script_row :: "test_script \<Rightarrow> row" where
  "script_row s =
     [(''Test Case ID'', script_test_case_id s),
      (''Test Scenario'', script_test_scenario s),
      (''Python Selenium Code'', python_selenium_code s)]"

definition save_scripts ::
  "file_system \<Rightarrow> test_script list \<Rightarrow> string \<Rightarrow> py_exception + unit" where
  "save_scripts fs test_scripts output_path =
     (case to_excel fs output_path (map script_row test_scripts) of
        Some e \<Rightarrow> Inl e
      | None \<Rightarrow> Inr ())"

section \<open>Notions used to state the properties\<close>

text \<open>A string of whitespace only.\<close>

definition blank :: "string \<Rightarrow> bool" where
  "blank s = (\<forall>c\<in>set s. isspace c)"

text \<open>Every line of the first list is, up to surrounding whitespace, a line of the second.\<close>

definition same_stripped :: "string list \<Rightarrow> string list \<Rightarrow> bool" where
  "same_stripped xs' xs = (\<forall>x'\<in>set xs'. \<exists>x\<in>set xs. strip x' = strip x)"

text \<open>The flag \<open>in_code_block\<close> when the first loop of the extractor ends.\<close>

fun fence_state :: "bool \<Rightarrow> string list \<Rightarrow> bool" where
  "fence_state in_code_block [] = in_code_block"
| "fence_state in_code_block (line # rest) =
     (if is_fence_open line then fence_state True rest
      else if is_fence_close line \<and> in_code_block then fence_state False rest
      else fence_state in_code_block rest)"

text \<open>
  A reply seen as a sequence of stretches of prose and of fenced blocks, a block being its
  opening marker line, the lines inside and its closing marker line.
\<close>

datatype segment = Prose "string list" | Fenced string "string list" string

fun segment_lines :: "segment \<Rightarrow> string list" where
  "segment_lines (Prose ls) = ls"
| "segment_lines (Fenced op body cl) = op # body @ [cl]"

fun segment_code :: "segment \<Rightarrow> string list" where
  "segment_code (Prose ls) = []"
| "segment_code (Fenced op body cl) = body"

text \<open>
  Prose holds no opening marker; a block is opened and closed by markers and holds
  none inside.
\<close>

fun segment_ok :: "segment \<Rightarrow> bool" where
  "segment_ok (Prose ls) = list_all (\<lambda>l. \<not> is_fence_open l) ls"
| "segment_ok (Fenced op body cl) =
     (is_fence_open op \<and> is_fence_close cl \<and>
      list_all (\<lambda>l. \<not> is_fence_open l \<and> \<not> is_fence_close l) body)"

text \<open>The records a call has emitted when the loop is in a given state and stops there.\<close>

definition emitted :: "parse_state \<Rightarrow> test_case list" where
  "emitted st = (case current_test_case st of
                   None \<Rightarrow> test_cases st
                 | Some cur \<Rightarrow> test_cases st @ [cur])"

text \<open>The identifier and the scenario of a record.\<close>

definition key :: "test_case \<Rightarrow> string \<times> string" where
  "key t = (test_case_id t, test_scenario t)"

text \<open>
  A step as the parser builds it: not empty, no whitespace at its end and within one line.
\<close>

definition good_step :: "string \<Rightarrow> bool" where
  "good_step s = (s \<noteq> [] \<and> \<not> isspace (last s) \<and> CHR ''\<newline>'' \<notin> set s)"

definition good_case :: "test_case \<Rightarrow> bool" where
  "good_case t = list_all good_step (steps_to_execute t)"

text \<open>The steps with their numbers, counted from \<open>i\<close>.\<close>

definition numbered :: "nat \<Rightarrow> string list \<Rightarrow> string list" where
  "numbered i steps = map (\<lambda>(j, s). str_nat j @ ''. '' @ s) (enumerate i steps)"

text \<open>
  What the specification says of a line of the steps section: a numeric prefix is one or
  more digits followed by a full stop and a space.
\<close>

definition spec_numeric_prefix :: "string \<Rightarrow> nat option" where
  "spec_numeric_prefix line =
     (let n = length (takeWhile isdigit line)
      in if 0 < n \<and> startswith (drop n line) ''. '' then Some (n + 2) else None)"

definition spec_step_line :: "string list \<Rightarrow> string \<Rightarrow> string list" where
  "spec_step_line steps line =
     (case spec_numeric_prefix line of
        Some k \<Rightarrow> steps @ [drop k line]
      | None \<Rightarrow> if steps = [] then [line] else butlast steps @ [last steps @ '' '' @ line])"

text \<open>An entry of the digest that starts with a space, as every entry for an element does.\<close>

definition indented :: "string \<Rightarrow> bool" where
  "indented y = (hd y = CHR '' '')"

text \<open>
  The closing line of a navigation menu that leaves \<open>n\<close> items out, as the specification
  asks for it: the noun agrees with the number.
\<close>

definition spec_more_items_line :: "nat \<Rightarrow> string" where
  "spec_more_items_line n =
     ''    ... ('' @ str_nat n @ '' more '' @ (if n = 1 then ''item'' else ''items'') @ '')''"

text \<open>
  What the specification calls a well-formed header: the words \<open>Test Case\<close>, a space, a
  number of one or more digits and a colon, then the scenario.  It is read on the stripped
  line, as the parser reads every line.
\<close>

definition spec_well_formed_header :: "string \<Rightarrow> bool" where
  "spec_well_formed_header line =
     (let rest = drop 10 line; k = takeWhile isdigit rest
      in startswith line ''Test Case '' \<and> k \<noteq> [] \<and> startswith (drop (length k) rest) '':'')"

text \<open>
  The row of a record as the specification asks for it on save: the four columns, the
  steps numbered from 1 to their count, one on each line.
\<close>

definition numbered_row :: "test_case \<Rightarrow> row" where
  "numbered_row t =
     [(''Test Case ID'', test_case_id t),
      (''Test Scenario'', test_scenario t),
      (''Steps to Execute'',
         join ''\<newline>'' (map (\<lambda>(i, s). str_nat i @ ''. '' @ s)
                               (enumerate 1 (steps_to_execute t)))),
      (''Expected Result'', expected_result t)]"

section \<open>Properties of the string primitives\<close>

subsection \<open>Lines\<close>

lemma split_nl_not_Nil [simp]: "split_nl s \<noteq> []"
  by (induction s) (auto split: list.splits)

lemma isspace_newline [simp]: "isspace CHR ''\<newline>''"
  by (simp add: isspace_def)

lemma join_split_nl: "join ''\<newline>'' (split_nl s) = s"
proof (induction s)
  case Nil
  show ?case by simp
next
  case (Cons c cs)
  obtain l ls where sp: "split_nl cs = l # ls" by (cases "split_nl cs") auto
  show ?case
  proof (cases "c = CHR ''\<newline>''")
    case True
    with Cons sp show ?thesis by simp
  next
    case False
    with Cons sp show ?thesis by (cases ls) auto
  qed
qed

lemma split_nl_snoc:
  "split_nl (s @ [c]) =
     (if c = CHR ''\<newline>'' then split_nl s @ [[]]
      else butlast (split_nl s) @ [last (split_nl s) @ [c]])"
proof (induction s)
  case Nil
  show ?case by simp
next
  case (Cons d ds)
  obtain l ls where sp: "split_nl ds = l # ls" by (cases "split_nl ds") auto
  show ?case
  proof (cases "d = CHR ''\<newline>''")
    case True
    with Cons show ?thesis by simp
  next
    case False
    with Cons sp show ?thesis by (cases ls) (auto split: list.splits)
  qed
qed

lemma split_nl_lstrip:
  "\<exists>ws l rest. split_nl s = ws @ l # rest \<and> (\<forall>w\<in>set ws. blank w) \<and>
                split_nl (lstrip s) = lstrip l # rest"
proof (induction s)
  case Nil
  have "split_nl [] = [] @ [] # [] \<and> (\<forall>w\<in>set []. blank w) \<and> split_nl (lstrip []) = lstrip [] # []"
    by (simp add: lstrip_def)
  then show ?case by blast
next
  case (Cons c cs)
  obtain l0 ls0 where sp: "split_nl cs = l0 # ls0" by (cases "split_nl cs") auto
  show ?case
  proof (cases "isspace c")
    case False
    then have nn: "c \<noteq> CHR ''\<newline>''" by auto
    with sp have "split_nl (c # cs) = [] @ (c # l0) # ls0" by simp
    moreover from False have "lstrip (c # cs) = c # cs" "lstrip (c # l0) = c # l0"
      by (simp_all add: lstrip_def)
    ultimately have "split_nl (c # cs) = [] @ (c # l0) # ls0 \<and> (\<forall>w\<in>set []. blank w) \<and>
        split_nl (lstrip (c # cs)) = lstrip (c # l0) # ls0"
      using nn sp by simp
    then show ?thesis by blast
  next
    case True
    then have ls: "lstrip (c # cs) = lstrip cs" by (simp add: lstrip_def)
    from Cons obtain ws l rest where IH: "split_nl cs = ws @ l # rest" "\<forall>w\<in>set ws. blank w"
      "split_nl (lstrip cs) = lstrip l # rest" by blast
    show ?thesis
    proof (cases "c = CHR ''\<newline>''")
      case nl: True
      with IH have "split_nl (c # cs) = ([] # ws) @ l # rest \<and> (\<forall>w\<in>set ([] # ws). blank w) \<and>
        split_nl (lstrip (c # cs)) = lstrip l # rest"
        using ls by (simp add: blank_def)
      then show ?thesis by blast
    next
      case nnl: False
      show ?thesis
      proof (cases ws)
        case Nil
        with IH sp have "l0 = l" "ls0 = rest" by auto
        with nnl sp True have "split_nl (c # cs) = [] @ (c # l) # rest \<and> (\<forall>w\<in>set []. blank w) \<and>
          split_nl (lstrip (c # cs)) = lstrip (c # l) # rest"
          using ls IH(3) by (simp add: lstrip_def)
        then show ?thesis by blast
      next
        case (Cons w ws')
        with IH sp have "l0 = w" "ls0 = ws' @ l # rest" by auto
        with nnl sp True Cons IH have "split_nl (c # cs) = ((c # w) # ws') @ l # rest \<and>
          (\<forall>w\<in>set ((c # w) # ws'). blank w) \<and>
          split_nl (lstrip (c # cs)) = lstrip l # rest"
          using ls by (simp add: blank_def)
        then show ?thesis by blast
      qed
    qed
  qed
qed

lemma split_nl_rstrip:
  "\<exists>init l ws. split_nl s = init @ l # ws \<and> (\<forall>w\<in>set ws. blank w) \<and>
                split_nl (rstrip s) = init @ [rstrip l]"
proof (induction s rule: rev_induct)
  case Nil
  have "split_nl [] = [] @ [] # [] \<and> (\<forall>w\<in>set []. blank w) \<and> split_nl (rstrip []) = [] @ [rstrip []]"
    by (simp add: rstrip_def)
  then show ?case by blast
next
  case (snoc c cs)
  show ?case
  proof (cases "isspace c")
    case False
    then have nn: "c \<noteq> CHR ''\<newline>''" by auto
    from False have r1: "rstrip (cs @ [c]) = cs @ [c]" by (simp add: rstrip_def)
    from False have r2: "rstrip (last (split_nl cs) @ [c]) = last (split_nl cs) @ [c]"
      by (simp add: rstrip_def)
    have "split_nl (cs @ [c]) = butlast (split_nl cs) @ (last (split_nl cs) @ [c]) # [] \<and>
        (\<forall>w\<in>set []. blank w) \<and>
        split_nl (rstrip (cs @ [c])) = butlast (split_nl cs) @ [rstrip (last (split_nl cs) @ [c])]"
      using nn r1 r2 by (simp add: split_nl_snoc)
    then show ?thesis by blast
  next
    case True
    then have rs: "rstrip (cs @ [c]) = rstrip cs" by (simp add: rstrip_def)
    from snoc obtain init l ws where IH: "split_nl cs = init @ l # ws" "\<forall>w\<in>set ws. blank w"
      "split_nl (rstrip cs) = init @ [rstrip l]" by blast
    show ?thesis
    proof (cases "c = CHR ''\<newline>''")
      case nl: True
      with IH have "split_nl (cs @ [c]) = init @ l # (ws @ [[]]) \<and>
        (\<forall>w\<in>set (ws @ [[]]). blank w) \<and> split_nl (rstrip (cs @ [c])) = init @ [rstrip l]"
        using rs by (simp add: blank_def split_nl_snoc)
      then show ?thesis by blast
    next
      case nnl: False
      show ?thesis
      proof (cases ws rule: rev_cases)
        case Nil
        with IH have "butlast (split_nl cs) = init" "last (split_nl cs) = l" by auto
        moreover from True have "rstrip (l @ [c]) = rstrip l" by (simp add: rstrip_def)
        ultimately have "split_nl (cs @ [c]) = init @ (l @ [c]) # [] \<and> (\<forall>w\<in>set []. blank w) \<and>
          split_nl (rstrip (cs @ [c])) = init @ [rstrip (l @ [c])]"
          using nnl rs IH(3) by (simp add: split_nl_snoc)
        then show ?thesis by blast
      next
        case (snoc ws' w)
        with IH have "butlast (split_nl cs) = init @ l # ws'" "last (split_nl cs) = w"
          by (auto simp: butlast_append)
        with nnl True snoc IH have "split_nl (cs @ [c]) = init @ l # (ws' @ [w @ [c]]) \<and>
          (\<forall>w\<in>set (ws' @ [w @ [c]]). blank w) \<and>
          split_nl (rstrip (cs @ [c])) = init @ [rstrip l]"
          using rs by (simp add: blank_def split_nl_snoc)
        then show ?thesis by blast
      qed
    qed
  qed
qed

subsection \<open>Stripping\<close>

lemma lstrip_blank: "blank s \<Longrightarrow> lstrip s = []"
  by (simp add: blank_def lstrip_def)

lemma rstrip_Cons:
  "rstrip (c # cs) = (if blank cs then (if isspace c then [] else [c]) else c # rstrip cs)"
  by (auto simp: rstrip_def blank_def dropWhile_append)

lemma lstrip_rstrip_commute: "lstrip (rstrip s) = rstrip (lstrip s)"
proof (induction s)
  case Nil
  show ?case by (simp add: lstrip_def rstrip_def)
next
  case (Cons c cs)
  show ?case
  proof (cases "isspace c")
    case True
    then have l: "lstrip (c # cs) = lstrip cs" by (simp add: lstrip_def)
    show ?thesis
    proof (cases "blank cs")
      case True
      with \<open>isspace c\<close> show ?thesis
        by (simp add: rstrip_Cons l lstrip_blank) (simp add: rstrip_def lstrip_def)
    next
      case False
      with \<open>isspace c\<close> have "lstrip (rstrip (c # cs)) = lstrip (rstrip cs)"
        by (simp add: rstrip_Cons lstrip_def)
      with Cons l show ?thesis by simp
    qed
  next
    case False
    then show ?thesis by (simp add: rstrip_Cons lstrip_def)
  qed
qed

lemma strip_lstrip [simp]: "strip (lstrip s) = strip s"
  by (simp add: strip_def lstrip_def)

lemma rstrip_idem: "rstrip (rstrip s) = rstrip s"
  by (simp add: rstrip_def)

lemma strip_rstrip [simp]: "strip (rstrip s) = strip s"
  by (simp add: strip_def lstrip_rstrip_commute rstrip_idem)

lemma strip_strip [simp]: "strip (strip s) = strip s"
  by (simp add: strip_def[of s])

lemma strip_Nil_iff: "strip s = [] \<longleftrightarrow> (\<forall>c\<in>set s. isspace c)"
proof -
  have "(\<forall>c\<in>set (dropWhile isspace s). isspace c) \<longleftrightarrow> dropWhile isspace s = []"
    by (metis hd_dropWhile hd_in_set empty_iff list.set(1))
  moreover have "strip s = [] \<longleftrightarrow> (\<forall>c\<in>set (dropWhile isspace s). isspace c)"
    by (simp add: strip_def rstrip_def lstrip_def dropWhile_eq_Nil_conv)
  ultimately show ?thesis
    by (simp only: dropWhile_eq_Nil_conv)
qed

lemma blank_strip: "blank s \<longleftrightarrow> strip s = []"
  by (simp add: blank_def strip_Nil_iff)

subsection \<open>Splitting a list around a line that is not blank\<close>

lemma anchor_left:
  assumes "ws @ us = xs @ a # ys" "\<forall>w\<in>set ws. P w" "\<not> P a"
  shows "\<exists>xs'. xs = ws @ xs' \<and> us = xs' @ a # ys"
  using assms
proof (induction ws arbitrary: xs)
  case Nil
  then show ?case by simp
next
  case (Cons w ws)
  then show ?case by (cases xs) auto
qed

lemma anchor_right:
  assumes "us @ ws = xs @ a # ys" "\<forall>w\<in>set ws. P w" "\<not> P a"
  shows "\<exists>ys'. ys = ys' @ ws \<and> us = xs @ a # ys'"
proof -
  from assms(1) have "rev ws @ rev us = rev ys @ a # rev xs" 
    by (metis rev_append rev.simps(2) append_assoc append_Cons append_Nil)
  moreover from assms(2) have "\<forall>w\<in>set (rev ws). P w" by simp
  ultimately obtain zs where "rev ys = rev ws @ zs" "rev us = zs @ a # rev xs"
    using anchor_left[of "rev ws" "rev us" "rev ys" a "rev xs" P] assms(3) by blast
  then have "ys = rev zs @ ws" "us = xs @ a # rev zs"
    by (metis rev_append rev_rev_ident, metis rev_append rev_rev_ident rev.simps(2) append_assoc append_Cons append_Nil)
  then show ?thesis by blast
qed

subsection \<open>The lines of a stripped text\<close>

lemma lines_lstrip_anchor:
  assumes "split_nl r = A @ m # C" "\<not> blank m"
  shows "\<exists>A' m'. split_nl (lstrip r) = A' @ m' # C \<and> strip m' = strip m \<and> same_stripped A' A"
proof -
  obtain ws l rest where d: "split_nl r = ws @ l # rest" "\<forall>w\<in>set ws. blank w"
    "split_nl (lstrip r) = lstrip l # rest"
    using split_nl_lstrip by blast
  from d(1) assms(1) have "ws @ (l # rest) = A @ m # C" by simp
  from anchor_left[OF this d(2) assms(2)] obtain A0 where A0: "A = ws @ A0" "l # rest = A0 @ m # C"
    by blast
  show ?thesis
  proof (cases A0)
    case Nil
    with A0 d(3) have "split_nl (lstrip r) = [] @ lstrip m # C \<and> strip (lstrip m) = strip m \<and> same_stripped [] A"
      by (simp add: same_stripped_def)
    then show ?thesis by blast
  next
    case (Cons a as)
    with A0 d(3) have "split_nl (lstrip r) = (lstrip a # as) @ m # C \<and> strip m = strip m \<and>
        same_stripped (lstrip a # as) A"
      by (auto simp: same_stripped_def)
    then show ?thesis by blast
  qed
qed

lemma lines_rstrip_anchor:
  assumes "split_nl r = C @ n # B" "\<not> blank n"
  shows "\<exists>n' B'. split_nl (rstrip r) = C @ n' # B' \<and> strip n' = strip n \<and> same_stripped B' B"
proof -
  obtain init l ws where d: "split_nl r = init @ l # ws" "\<forall>w\<in>set ws. blank w"
    "split_nl (rstrip r) = init @ [rstrip l]"
    using split_nl_rstrip by blast
  from d(1) assms(1) have "(init @ [l]) @ ws = C @ n # B" by simp
  from anchor_right[OF this d(2) assms(2)] obtain B0 where B0: "B = B0 @ ws" "init @ [l] = C @ n # B0"
    by blast
  show ?thesis
  proof (cases B0 rule: rev_cases)
    case Nil
    with B0 d(3) have "split_nl (rstrip r) = C @ rstrip n # [] \<and> strip (rstrip n) = strip n \<and> same_stripped [] B"
      by (simp add: same_stripped_def)
    then show ?thesis by blast
  next
    case (snoc bs b)
    with B0 have "init = C @ n # bs" "l = b" by auto
    with snoc B0 d(3) have "split_nl (rstrip r) = C @ n # (bs @ [rstrip b]) \<and> strip n = strip n \<and>
        same_stripped (bs @ [rstrip b]) B"
      by (auto simp: same_stripped_def)
    then show ?thesis by blast
  qed
qed

lemma lines_strip_two_anchors:
  assumes "split_nl r = A @ m # M @ n # B" "\<not> blank m" "\<not> blank n"
  shows "\<exists>A' m' n' B'. split_nl (strip r) = A' @ m' # M @ n' # B' \<and>
           strip m' = strip m \<and> strip n' = strip n \<and> same_stripped A' A \<and> same_stripped B' B"
proof -
  from lines_lstrip_anchor[OF assms(1,2)] obtain A' m' where
    1: "split_nl (lstrip r) = A' @ m' # M @ n # B" "strip m' = strip m" "same_stripped A' A"
    by blast
  from 1(1) have "split_nl (lstrip r) = (A' @ m' # M) @ n # B" by simp
  from lines_rstrip_anchor[OF this assms(3)] obtain n' B' where
    2: "split_nl (rstrip (lstrip r)) = (A' @ m' # M) @ n' # B'" "strip n' = strip n" "same_stripped B' B"
    by blast
  with 1 have "split_nl (strip r) = A' @ m' # M @ n' # B' \<and>
           strip m' = strip m \<and> strip n' = strip n \<and> same_stripped A' A \<and> same_stripped B' B"
    by (simp add: strip_def)
  then show ?thesis by blast
qed

lemma lines_strip_subset: "same_stripped (split_nl (strip r)) (split_nl r)"
proof -
  obtain ws l rest where d: "split_nl r = ws @ l # rest"
    "split_nl (lstrip r) = lstrip l # rest"
    using split_nl_lstrip by blast
  obtain init k vs where e: "split_nl (lstrip r) = init @ k # vs"
    "split_nl (rstrip (lstrip r)) = init @ [rstrip k]"
    using split_nl_rstrip by blast
  have a: "same_stripped (split_nl (lstrip r)) (split_nl r)"
    unfolding d same_stripped_def by auto
  have "split_nl (strip r) = init @ [rstrip k]"
    using e(2) by (simp add: strip_def)
  then have b: "same_stripped (split_nl (strip r)) (split_nl (lstrip r))"
    unfolding e(1) same_stripped_def by auto
  from a b show ?thesis unfolding same_stripped_def by metis
qed

subsection \<open>Joining lines and splitting again\<close>

lemma split_nl_no_newline: "l \<in> set (split_nl s) \<Longrightarrow> CHR ''\<newline>'' \<notin> set l"
proof (induction s arbitrary: l)
  case Nil
  then show ?case by simp
next
  case (Cons c cs)
  obtain l0 ls0 where sp: "split_nl cs = l0 # ls0" by (cases "split_nl cs") auto
  with Cons show ?case by (auto split: if_splits)
qed

lemma split_nl_no_nl: "CHR ''\<newline>'' \<notin> set l \<Longrightarrow> split_nl l = [l]"
  by (induction l) auto

lemma split_nl_append_nl:
  "CHR ''\<newline>'' \<notin> set l \<Longrightarrow> split_nl (l @ CHR ''\<newline>'' # s) = l # split_nl s"
  by (induction l) auto

lemma split_nl_join:
  "ls \<noteq> [] \<Longrightarrow> \<forall>l\<in>set ls. CHR ''\<newline>'' \<notin> set l \<Longrightarrow> split_nl (join ''\<newline>'' ls) = ls"
proof (induction ls)
  case Nil
  then show ?case by simp
next
  case (Cons x xs)
  show ?case
  proof (cases xs)
    case Nil
    with Cons.prems show ?thesis by (simp add: split_nl_no_nl)
  next
    case (Cons y ys)
    with Cons.IH Cons.prems have "split_nl (join ''\<newline>'' xs) = xs" by simp
    with Cons Cons.prems show ?thesis by (simp add: split_nl_append_nl)
  qed
qed

section \<open>Properties of the test case parser\<close>

subsection \<open>The loop never raises\<close>

lemma add_step_line_not_Inl:
  "line \<noteq> [] \<Longrightarrow> add_step_line steps line \<noteq> Inl e"
  by (cases line) (auto simp: add_step_line_def first_char_def Let_def)

lemma process_line_Inr: "\<exists>st'. process_line st raw = Inr st'"
proof (cases "strip raw = []")
  case True
  then show ?thesis by (simp add: process_line_def)
next
  case False
  then show ?thesis
    unfolding process_line_def Let_def
    by (cases "cur_section st"; cases "current_test_case st"; cases "the (cur_section st)")
       (auto split: sum.splits simp: add_step_line_not_Inl)
qed

lemma process_lines_Inr: "\<exists>st'. process_lines st ls = Inr st'"
proof (induction ls arbitrary: st)
  case Nil
  show ?case by simp
next
  case (Cons l ls)
  obtain st1 where "process_line st l = Inr st1" using process_line_Inr by blast
  with Cons show ?case by simp
qed

lemma process_ai_response_total: "\<exists>res. process_ai_response tcs r = Inr res"
proof -
  obtain st where "process_lines \<lparr>test_cases = tcs, current_test_case = None, cur_section = None\<rparr>
                      (split_nl (strip r)) = Inr st"
    using process_lines_Inr by blast
  then show ?thesis by (simp add: process_ai_response_def Let_def)
qed

subsection \<open>Blank replies\<close>

text \<open>
  Claim C4.  When every character of the reply is whitespace (the empty reply included),
  \<open>_process_ai_response\<close> raises nothing, returns the empty list, leaves the
  generator's list as it was and prints its warning; and \<open>generate_test_cases\<close> on a
  new generator, whose list is empty, then prints the warning that no test cases were
  extracted.
\<close>

theorem blank_reply_warns:
  assumes "\<forall>c\<in>set response. isspace c"
  shows "process_ai_response self_tcs response =
           Inr \<lparr>self_test_cases = self_tcs, returned = [],
                printed = [''Warning: Empty AI response received.'']\<rparr> \<and>
         generate_test_cases_from_reply [] response =
           Inr \<lparr>self_test_cases = [], returned = [],
                printed = [''Warning: Empty AI response received.'',
                  ''\<newline>Warning: No test cases were extracted from the AI response.'',
                  ''Please check the AI response format or modify the processing logic.'']\<rparr>"
proof -
  from assms have "strip response = []" by (simp add: strip_Nil_iff)
  then have "process_ai_response tcs response =
           Inr \<lparr>self_test_cases = tcs, returned = [],
                printed = [''Warning: Empty AI response received.'']\<rparr>" for tcs
    by (simp add: process_ai_response_def)
  then show ?thesis
    by (simp add: generate_test_cases_from_reply_def generation_report_def)
qed

theorem blank_reply_warns_witness:
  "process_ai_response [] '' \<newline>  '' =
     Inr \<lparr>self_test_cases = [], returned = [],
          printed = [''Warning: Empty AI response received.'']\<rparr> \<and>
   generate_test_cases_from_reply [] '' \<newline>  '' =
     Inr \<lparr>self_test_cases = [], returned = [],
          printed = [''Warning: Empty AI response received.'',
            ''\<newline>Warning: No test cases were extracted from the AI response.'',
            ''Please check the AI response format or modify the processing logic.'']\<rparr>"
  using blank_reply_warns [of "'' \<newline>  ''" "[]"] by (simp add: isspace_def)

subsection \<open>Records already emitted are kept\<close>

lemma process_line_shift:
  assumes "process_line st l = Inr st'"
  shows "process_line (st\<lparr>test_cases := pre @ test_cases st\<rparr>) l
         = Inr (st'\<lparr>test_cases := pre @ test_cases st'\<rparr>)"
  using assms
  by (auto simp: process_line_def Let_def
           split: option.splits section_name.splits sum.splits if_splits)

lemma process_lines_shift:
  "process_lines st ls = Inr st' \<Longrightarrow>
   process_lines (st\<lparr>test_cases := pre @ test_cases st\<rparr>) ls
     = Inr (st'\<lparr>test_cases := pre @ test_cases st'\<rparr>)"
proof (induction ls arbitrary: st)
  case Nil
  then show ?case by auto
next
  case (Cons l ls)
  obtain st1 where s1: "process_line st l = Inr st1" using process_line_Inr by blast
  with Cons.prems have "process_lines st1 ls = Inr st'" by simp
  from Cons.IH[OF this] process_line_shift[OF s1, of pre] show ?case by simp
qed

lemma process_ai_response_shift:
  assumes "process_ai_response [] r = Inr a"
  shows "\<exists>res. process_ai_response tcs r = Inr res \<and>
               self_test_cases res = tcs @ self_test_cases a"
proof (cases "strip r = []")
  case True
  with assms show ?thesis by (auto simp: process_ai_response_def)
next
  case False
  let ?st0 = "\<lparr>test_cases = [], current_test_case = None, cur_section = None\<rparr>"
  obtain st where st: "process_lines ?st0 (split_nl (strip r)) = Inr st"
    using process_lines_Inr by blast
  have "process_lines (?st0\<lparr>test_cases := tcs @ test_cases ?st0\<rparr>) (split_nl (strip r))
        = Inr (st\<lparr>test_cases := tcs @ test_cases st\<rparr>)"
    by (rule process_lines_shift[OF st])
  then have "process_lines \<lparr>test_cases = tcs, current_test_case = None, cur_section = None\<rparr>
               (split_nl (strip r)) = Inr (st\<lparr>test_cases := tcs @ test_cases st\<rparr>)"
    by simp
  with st assms False show ?thesis
    by (auto simp: process_ai_response_def Let_def split: option.splits)
qed

text \<open>
  Claim C10.  Two replies parsed one after the other on the same generator, whose list
  is \<open>tcs\<close> before: neither call raises, and afterwards the list is \<open>tcs\<close>, then the
  records a new generator parses from the first reply, then those it parses from the
  second.  So a call only appends: what the list held before is an unchanged prefix.
\<close>

theorem successive_replies_accumulate:
  "\<exists>a b res1 res2.
      process_ai_response [] r1 = Inr a \<and> process_ai_response [] r2 = Inr b \<and>
      process_ai_response tcs r1 = Inr res1 \<and>
      process_ai_response (self_test_cases res1) r2 = Inr res2 \<and>
      self_test_cases res2 = tcs @ self_test_cases a @ self_test_cases b"
proof -
  obtain a where a: "process_ai_response [] r1 = Inr a"
    using process_ai_response_total by blast
  obtain b where b: "process_ai_response [] r2 = Inr b"
    using process_ai_response_total by blast
  from process_ai_response_shift[OF a, of tcs] obtain res1 where
    r1: "process_ai_response tcs r1 = Inr res1" "self_test_cases res1 = tcs @ self_test_cases a"
    by blast
  from process_ai_response_shift[OF b, of "self_test_cases res1"] obtain res2 where
    r2: "process_ai_response (self_test_cases res1) r2 = Inr res2"
        "self_test_cases res2 = self_test_cases res1 @ self_test_cases b"
    by blast
  from a b r1 r2 show ?thesis by simp
qed

theorem successive_replies_accumulate_witness:
  "\<exists>res1 res2.
      process_ai_response [] ''TC-1: A'' = Inr res1 \<and>
      process_ai_response (self_test_cases res1) ''TC-2: B'' = Inr res2 \<and>
      self_test_cases res2 =
        [\<lparr>test_case_id = ''TC-1'', test_scenario = ''A'', steps_to_execute = [],
           expected_result = ''''\<rparr>,
         \<lparr>test_case_id = ''TC-2'', test_scenario = ''B'', steps_to_execute = [],
           expected_result = ''''\<rparr>]"
proof -
  have a: "process_ai_response [] ''TC-1: A'' =
      Inr \<lparr>self_test_cases = [\<lparr>test_case_id = ''TC-1'', test_scenario = ''A'',
              steps_to_execute = [], expected_result = ''''\<rparr>],
           returned = [\<lparr>test_case_id = ''TC-1'', test_scenario = ''A'',
              steps_to_execute = [], expected_result = ''''\<rparr>], printed = []\<rparr>"
    by code_simp
  have b: "process_ai_response [] ''TC-2: B'' =
      Inr \<lparr>self_test_cases = [\<lparr>test_case_id = ''TC-2'', test_scenario = ''B'',
              steps_to_execute = [], expected_result = ''''\<rparr>],
           returned = [\<lparr>test_case_id = ''TC-2'', test_scenario = ''B'',
              steps_to_execute = [], expected_result = ''''\<rparr>], printed = []\<rparr>"
    by code_simp
  from successive_replies_accumulate[of "''TC-1: A''" "''TC-2: B''" "[]"] a b
  show ?thesis by auto
qed

subsection \<open>Lines that differ by surrounding whitespace\<close>

lemma is_header_not_Nil: "is_header l \<Longrightarrow> l \<noteq> []"
  by (auto simp: is_header_def startswith_def)

lemma process_line_cong: "strip l' = strip l \<Longrightarrow> process_line st l' = process_line st l"
  by (simp add: process_line_def)

lemma process_line_blank: "blank l \<Longrightarrow> process_line st l = Inr st"
  by (simp add: process_line_def blank_strip)

lemma process_lines_append:
  "process_lines st (xs @ ys) =
     (case process_lines st xs of Inl e \<Rightarrow> Inl e | Inr st' \<Rightarrow> process_lines st' ys)"
  by (induction xs arbitrary: st) (auto split: sum.splits)

lemma process_lines_blanks: "\<forall>w\<in>set ws. blank w \<Longrightarrow> process_lines st ws = Inr st"
  by (induction ws) (auto simp: process_line_blank)

lemma process_lines_lstrip:
  "process_lines st (split_nl (lstrip r)) = process_lines st (split_nl r)"
proof -
  obtain ws l rest where d: "split_nl r = ws @ l # rest" "\<forall>w\<in>set ws. blank w"
    "split_nl (lstrip r) = lstrip l # rest"
    using split_nl_lstrip by blast
  have "process_line st (lstrip l) = process_line st l"
    by (rule process_line_cong) simp
  with d show ?thesis
    by (simp add: process_lines_append process_lines_blanks)
qed

lemma process_lines_rstrip:
  "process_lines st (split_nl (rstrip r)) = process_lines st (split_nl r)"
proof -
  obtain init l ws where d: "split_nl r = init @ l # ws" "\<forall>w\<in>set ws. blank w"
    "split_nl (rstrip r) = init @ [rstrip l]"
    using split_nl_rstrip by blast
  have c: "process_line st' (rstrip l) = process_line st' l" for st'
    by (rule process_line_cong) simp
  show ?thesis
  proof (cases "process_lines st init")
    case (Inl e)
    with d show ?thesis by (simp add: process_lines_append)
  next
    case (Inr st1)
    obtain st2 where "process_line st1 l = Inr st2" using process_line_Inr by blast
    with Inr d c show ?thesis
      by (simp add: process_lines_append process_lines_blanks)
  qed
qed

lemma process_lines_strip:
  "process_lines st (split_nl (strip r)) = process_lines st (split_nl r)"
  by (simp add: strip_def process_lines_rstrip process_lines_lstrip)

lemma new_test_case_fields:
  assumes "is_header h"
  shows "new_test_case h =
           \<lparr>test_case_id = strip (takeWhile (\<lambda>x. x \<noteq> CHR '':'') h),
            test_scenario = strip (tl (dropWhile (\<lambda>x. x \<noteq> CHR '':'') h)),
            steps_to_execute = [], expected_result = ''''\<rparr>"
proof -
  from assms have "CHR '':'' \<in> set h" by (auto simp: is_header_def)
  then show ?thesis by (simp add: new_test_case_def split1_def Let_def)
qed

lemma process_line_keys:
  assumes "process_line st l = Inr st'"
  shows "map key (emitted st') =
           map key (emitted st) @ (if is_header (strip l) then [key (new_test_case (strip l))] else [])"
proof (cases "strip l = []")
  case True
  with assms show ?thesis by (auto simp: process_line_def dest: is_header_not_Nil)
next
  case False
  show ?thesis
  proof (cases "is_header (strip l)")
    case True
    with False assms show ?thesis
      by (auto simp: process_line_def emitted_def split: option.splits)
  next
    case nh: False
    with False assms show ?thesis
      by (auto simp: process_line_def emitted_def key_def Let_def
               split: option.splits section_name.splits sum.splits if_splits)
  qed
qed

lemma process_lines_keys:
  "process_lines st ls = Inr st' \<Longrightarrow>
   map key (emitted st') =
     map key (emitted st) @ map (\<lambda>h. key (new_test_case h)) (filter is_header (map strip ls))"
proof (induction ls arbitrary: st)
  case Nil
  then show ?case by auto
next
  case (Cons l ls)
  obtain st1 where s1: "process_line st l = Inr st1" using process_line_Inr by blast
  with Cons.prems have "process_lines st1 ls = Inr st'" by simp
  from Cons.IH[OF this] process_line_keys[OF s1] show ?case by simp
qed

subsection \<open>The steps collected are well formed\<close>

lemma rstrip_last: "rstrip s \<noteq> [] \<Longrightarrow> \<not> isspace (last (rstrip s))"
proof -
  assume "rstrip s \<noteq> []"
  then have ne: "dropWhile isspace (rev s) \<noteq> []" by (simp add: rstrip_def)
  then have "\<not> isspace (hd (dropWhile isspace (rev s)))" by (rule hd_dropWhile)
  with ne show ?thesis by (simp add: rstrip_def last_rev)
qed

lemma strip_last: "strip s \<noteq> [] \<Longrightarrow> \<not> isspace (last (strip s))"
  unfolding strip_def by (rule rstrip_last)

lemma set_strip: "set (strip s) \<subseteq> set s"
proof -
  have "set (dropWhile P xs) \<subseteq> set xs" for P and xs :: "char list"
    by (auto dest: set_dropWhileD)
  then have "set (rstrip t) \<subseteq> set t" "set (lstrip t) \<subseteq> set t" for t
    unfolding rstrip_def lstrip_def by (metis set_rev)+
  then show ?thesis unfolding strip_def by blast
qed

lemma rstrip_end: "s \<noteq> [] \<Longrightarrow> \<not> isspace (last s) \<Longrightarrow> rstrip s = s"
  by (cases s rule: rev_cases) (auto simp: rstrip_def)

lemma lstrip_begin: "s \<noteq> [] \<Longrightarrow> \<not> isspace (hd s) \<Longrightarrow> lstrip s = s"
  by (cases s) (auto simp: lstrip_def)

lemma strip_keeps_end:
  assumes "s \<noteq> []" "\<not> isspace (last s)"
  shows "strip s \<noteq> [] \<and> last (strip s) = last s"
proof -
  have "strip s = lstrip (rstrip s)" by (simp add: strip_def lstrip_rstrip_commute)
  also have "\<dots> = lstrip s" using assms by (simp add: rstrip_end)
  finally have e: "strip s = dropWhile isspace s" by (simp add: lstrip_def)
  from assms have "\<exists>x\<in>set s. \<not> isspace x" using last_in_set by blast
  then have ne: "dropWhile isspace s \<noteq> []" by (simp add: dropWhile_eq_Nil_conv)
  have "s = takeWhile isspace s @ dropWhile isspace s" by simp
  with ne have "last s = last (dropWhile isspace s)" by (metis last_appendR)
  with ne e show ?thesis by simp
qed

lemma contains_decomp:
  "contains sep line \<Longrightarrow>
   line = before_sep sep line @ sep @ drop (length (before_sep sep line) + length sep) line"
proof (induction line)
  case Nil
  then show ?case by simp
next
  case (Cons c cs)
  show ?case
  proof (cases "startswith (c # cs) sep")
    case True
    then have "take (length sep) (c # cs) = sep" by (simp add: startswith_def)
    then have "c # cs = sep @ drop (length sep) (c # cs)" by (metis append_take_drop_id)
    with True show ?thesis by simp
  next
    case False
    with Cons show ?thesis by simp
  qed
qed

lemma step_text_good:
  assumes "line \<noteq> []" "\<not> isspace (last line)" "CHR ''\<newline>'' \<notin> set line"
    "contains ''. '' line"
  shows "good_step (strip (drop (length (before_sep ''. '' line) + 2) line))"
proof -
  let ?rest = "drop (length (before_sep ''. '' line) + 2) line"
  from contains_decomp[OF assms(4)] have d: "line = before_sep ''. '' line @ ''. '' @ ?rest"
    by simp
  have ne: "?rest \<noteq> []"
  proof
    assume "?rest = []"
    with d have "line = before_sep ''. '' line @ ''. ''" by simp
    then have "last line = CHR '' ''" by (metis last_appendR last.simps list.distinct(1))
    with assms(2) show False by (simp add: isspace_def)
  qed
  with d have "last ?rest = last line" by (metis last_appendR append_is_Nil_conv)
  with assms(2) ne have "strip ?rest \<noteq> [] \<and> last (strip ?rest) = last ?rest"
    by (intro strip_keeps_end) simp_all
  moreover have "\<not> isspace (last (strip ?rest))" using calculation strip_last by blast
  moreover have "set (strip ?rest) \<subseteq> set line"
    using set_strip[of ?rest] set_drop_subset[of _ line] by blast
  ultimately show ?thesis using assms(3) by (auto simp: good_step_def)
qed

lemma add_step_line_good:
  assumes "line \<noteq> []" "\<not> isspace (last line)" "CHR ''\<newline>'' \<notin> set line"
    "list_all good_step steps" "add_step_line steps line = Inr steps'"
  shows "list_all good_step steps'"
proof -
  obtain c cs where l: "line = c # cs" using assms(1) by (cases line) auto
  have gl: "good_step line" using assms(1-3) by (simp add: good_step_def)
  show ?thesis
  proof (cases "isdigit c \<and> contains ''. '' line")
    case True
    with assms(5) l have "steps' = steps @ [strip (drop (length (before_sep ''. '' line) + 2) line)]"
      by (auto simp: add_step_line_def first_char_def Let_def)
    with step_text_good[OF assms(1-3)] True assms(4) show ?thesis by simp
  next
    case False
    show ?thesis
    proof (cases "steps = []")
      case True
      with False assms(5) l gl show ?thesis
        by (auto simp: add_step_line_def first_char_def Let_def)
    next
      case ne: False
      with False assms(5) l have s: "steps' = butlast steps @ [last steps @ '' '' @ line]"
        by (auto simp: add_step_line_def first_char_def Let_def)
      from ne assms(4) have "good_step (last steps)" "list_all good_step (butlast steps)"
        by (auto simp: list_all_iff dest: in_set_butlastD)
      moreover from this(1) gl have "good_step (last steps @ '' '' @ line)"
        by (auto simp: good_step_def)
      ultimately show ?thesis using s by simp
    qed
  qed
qed

lemma new_test_case_good: "good_case (new_test_case h)"
  by (simp add: good_case_def new_test_case_def Let_def)

lemma process_line_good:
  assumes "CHR ''\<newline>'' \<notin> set raw" "list_all good_case (emitted st)"
    "process_line st raw = Inr st'"
  shows "list_all good_case (emitted st')"
proof (cases "strip raw = []")
  case True
  with assms show ?thesis by (simp add: process_line_def)
next
  case False
  then have a: "strip raw \<noteq> []" "\<not> isspace (last (strip raw))" "CHR ''\<newline>'' \<notin> set (strip raw)"
    using strip_last[of raw] set_strip[of raw] assms(1) by auto
  have g: "list_all good_step steps \<Longrightarrow> add_step_line steps (strip raw) = Inr steps'
      \<Longrightarrow> list_all good_step steps'" for steps steps'
    by (rule add_step_line_good[OF a])
  from assms(2,3) False show ?thesis
    by (auto simp: process_line_def emitted_def Let_def good_case_def new_test_case_good[unfolded good_case_def]
             split: option.splits section_name.splits sum.splits if_splits)
       (use g in blast)
qed

lemma process_lines_good:
  "\<forall>l\<in>set ls. CHR ''\<newline>'' \<notin> set l \<Longrightarrow> list_all good_case (emitted st) \<Longrightarrow>
   process_lines st ls = Inr st' \<Longrightarrow> list_all good_case (emitted st')"
proof (induction ls arbitrary: st)
  case Nil
  then show ?case by auto
next
  case (Cons l ls)
  obtain st1 where s1: "process_line st l = Inr st1" using process_line_Inr by blast
  with Cons.prems have r: "process_lines st1 ls = Inr st'" by simp
  from Cons.prems have "list_all good_case (emitted st1)"
    by (intro process_line_good[OF _ _ s1]) simp_all
  with Cons.IH[OF _ this r] Cons.prems show ?case by simp
qed

subsection \<open>The numbered steps written on save\<close>

lemma digit_char_in: "d < 10 \<Longrightarrow> digit_char d \<in> set ''0123456789''"
  unfolding digit_char_def by (rule nth_mem) simp

lemma str_nat_digits: "str_nat n \<noteq> [] \<and> set (str_nat n) \<subseteq> set ''0123456789''"
proof (induction n rule: str_nat.induct)
  case (1 n)
  show ?case
  proof (cases "n < 10")
    case True
    then have "str_nat n = [digit_char n]" by (simp add: str_nat.simps)
    with digit_char_in[OF True] show ?thesis by simp
  next
    case False
    then have e: "str_nat n = str_nat (n div 10) @ [digit_char (n mod 10)]"
      by (subst str_nat.simps) simp
    have "digit_char (n mod 10) \<in> set ''0123456789''" by (rule digit_char_in) simp
    with 1 False e show ?thesis by auto
  qed
qed

lemma str_nat_hd: "\<not> isspace (hd (str_nat n))"
proof -
  from str_nat_digits[of n] have "hd (str_nat n) \<in> set ''0123456789''"
    using hd_in_set by blast
  then show ?thesis by (auto simp: isspace_def)
qed

lemma str_nat_no_newline: "CHR ''\<newline>'' \<notin> set (str_nat n)"
  using str_nat_digits[of n] by auto

lemma numbered_Cons:
  "numbered i (s # steps) = (str_nat i @ ''. '' @ s) # numbered (Suc i) steps"
  by (simp add: numbered_def enumerate_simps)

lemma numbered_Nil [simp]: "numbered i [] = []"
  by (simp add: numbered_def)

lemma numbered_steps_concat:
  "numbered_steps i steps = concat (map (\<lambda>l. l @ ''\<newline>'') (numbered i steps))"
  by (induction steps arbitrary: i) (simp_all add: numbered_Cons)

lemma concat_lines_join:
  "ls \<noteq> [] \<Longrightarrow> concat (map (\<lambda>l. l @ ''\<newline>'') ls) = join ''\<newline>'' ls @ ''\<newline>''"
proof (induction ls)
  case Nil
  then show ?case by simp
next
  case (Cons x xs)
  then show ?case by (cases xs) auto
qed

lemma join_hd: "x \<noteq> [] \<Longrightarrow> join sep (x # xs) \<noteq> [] \<and> hd (join sep (x # xs)) = hd x"
  by (cases xs) auto

lemma join_last:
  "ls \<noteq> [] \<Longrightarrow> last ls \<noteq> [] \<Longrightarrow>
   join sep ls \<noteq> [] \<and> last (join sep ls) = last (last ls)"
proof (induction ls)
  case Nil
  then show ?case by simp
next
  case (Cons x xs)
  show ?case
  proof (cases xs)
    case Nil
    with Cons.prems show ?thesis by simp
  next
    case (Cons y ys)
    with Cons.prems Cons.IH have "join sep xs \<noteq> [] \<and> last (join sep xs) = last (last xs)"
      by simp
    with Cons show ?thesis by simp
  qed
qed

lemma numbered_last:
  "steps \<noteq> [] \<Longrightarrow> last (numbered i steps) = str_nat (i + length steps - 1) @ ''. '' @ last steps"
proof (induction steps arbitrary: i)
  case Nil
  then show ?case by simp
next
  case (Cons s steps)
  then show ?case by (cases steps) (auto simp: numbered_Cons)
qed

lemma strip_trailing_newline:
  assumes "s \<noteq> []" "\<not> isspace (hd s)" "\<not> isspace (last s)"
  shows "strip (s @ ''\<newline>'') = s"
proof -
  from assms(1,2) have "lstrip (s @ ''\<newline>'') = s @ ''\<newline>''"
    by (cases s) (auto simp: lstrip_def)
  moreover from assms(1,3) have "rstrip (s @ ''\<newline>'') = s"
    by (cases s rule: rev_cases) (auto simp: rstrip_def)
  ultimately show ?thesis by (simp add: strip_def)
qed

lemma steps_text_numbered:
  assumes "list_all good_step steps"
  shows "steps_text steps = join ''\<newline>'' (numbered 1 steps) \<and>
         (steps \<noteq> [] \<longrightarrow> split_nl (steps_text steps) = numbered 1 steps)"
proof (cases steps)
  case Nil
  then show ?thesis by (simp add: steps_text_def strip_def lstrip_def rstrip_def)
next
  case (Cons s ss)
  let ?ls = "numbered 1 steps"
  let ?j = "join ''\<newline>'' ?ls"
  from Cons have ne: "?ls \<noteq> []" by (simp add: numbered_Cons)
  from Cons obtain x xs where x: "?ls = x # xs" "x = str_nat 1 @ ''. '' @ s"
    by (simp add: numbered_Cons)
  from x(2) str_nat_digits[of 1] have "x \<noteq> []" "hd x = hd (str_nat 1)" by auto
  with join_hd[of x "''\<newline>''" xs] x(1) have h: "?j \<noteq> [] \<and> hd ?j = hd (str_nat 1)"
    by simp
  from Cons have "steps \<noteq> []" by simp
  then have ll: "last ?ls = str_nat (1 + length steps - 1) @ ''. '' @ last steps"
    by (rule numbered_last)
  from assms \<open>steps \<noteq> []\<close> have gl: "good_step (last steps)" by (simp add: list_all_iff)
  with ll have "last ?ls \<noteq> []" "last (last ?ls) = last (last steps)"
    by (auto simp: good_step_def)
  with join_last[OF ne, of "''\<newline>''"] gl have l: "\<not> isspace (last ?j)"
    by (simp add: good_step_def)
  from h str_nat_hd[of 1] have "\<not> isspace (hd ?j)" by simp
  with h l have "strip (?j @ ''\<newline>'') = ?j" by (intro strip_trailing_newline) simp_all
  with ne have e: "steps_text steps = ?j"
    by (simp add: steps_text_def numbered_steps_concat concat_lines_join)
  have "\<forall>l\<in>set ?ls. CHR ''\<newline>'' \<notin> set l"
    using assms str_nat_no_newline
    by (auto simp: numbered_def list_all_iff good_step_def dest!: in_set_enumerate_eq[THEN iffD1])
  with ne have "split_nl ?j = ?ls" by (simp add: split_nl_join)
  with e show ?thesis by simp
qed

lemma set_split_nl: "l \<in> set (split_nl s) \<Longrightarrow> set l \<subseteq> set s"
proof (induction s arbitrary: l)
  case Nil
  then show ?case by simp
next
  case (Cons c cs)
  obtain l0 ls0 where sp: "split_nl cs = l0 # ls0" by (cases "split_nl cs") auto
  with Cons show ?case by (fastforce split: if_splits)
qed

lemma blank_lines: "strip r = [] \<Longrightarrow> l \<in> set (split_nl r) \<Longrightarrow> blank l"
  using set_split_nl[of l r] by (auto simp: strip_Nil_iff blank_def)

lemma process_ai_response_raw:
  assumes "process_lines \<lparr>test_cases = tcs, current_test_case = None, cur_section = None\<rparr>
             (split_nl r) = Inr st"
  shows "\<exists>res. process_ai_response tcs r = Inr res \<and> self_test_cases res = emitted st \<and>
           (strip r \<noteq> [] \<longrightarrow> returned res = emitted st)"
proof (cases "strip r = []")
  case True
  then have "\<forall>l\<in>set (split_nl r). blank l" using blank_lines by blast
  with assms have "st = \<lparr>test_cases = tcs, current_test_case = None, cur_section = None\<rparr>"
    by (simp add: process_lines_blanks)
  with True show ?thesis by (simp add: process_ai_response_def emitted_def)
next
  case False
  with assms show ?thesis
    by (simp add: process_ai_response_def emitted_def process_lines_strip Let_def)
qed

subsection \<open>One record for each header\<close>

lemma emitted_initial [simp]:
  "emitted \<lparr>test_cases = tcs, current_test_case = None, cur_section = None\<rparr> = tcs"
  by (simp add: emitted_def)

lemma process_line_no_header:
  assumes "process_line st l = Inr st'" "\<not> is_header (strip l)"
  shows "test_cases st' = test_cases st \<and>
         (current_test_case st \<noteq> None \<longrightarrow> current_test_case st' \<noteq> None)"
  using assms
  by (auto simp: process_line_def Let_def
           split: option.splits section_name.splits sum.splits if_splits)

lemma process_lines_no_header:
  "process_lines st ls = Inr st' \<Longrightarrow> \<forall>l\<in>set ls. \<not> is_header (strip l) \<Longrightarrow>
   test_cases st' = test_cases st \<and>
   (current_test_case st \<noteq> None \<longrightarrow> current_test_case st' \<noteq> None)"
proof (induction ls arbitrary: st)
  case Nil
  then show ?case by auto
next
  case (Cons l ls)
  obtain st1 where s1: "process_line st l = Inr st1" using process_line_Inr by blast
  with Cons.prems have r: "process_lines st1 ls = Inr st'" by simp
  from process_line_no_header[OF s1] Cons.prems Cons.IH[OF r] show ?case by simp
qed

lemma process_line_header:
  assumes "is_header (strip h)"
  shows "process_line st h =
           Inr \<lparr>test_cases = emitted st, current_test_case = Some (new_test_case (strip h)),
                cur_section = None\<rparr>"
  using assms is_header_not_Nil[OF assms]
  by (simp add: process_line_def emitted_def)

lemma well_formed_is_header:
  assumes "spec_well_formed_header l"
  shows "is_header l"
proof -
  let ?rest = "drop 10 l"
  let ?k = "takeWhile isdigit ?rest"
  from assms have s: "startswith l ''Test Case ''" and
    c: "startswith (drop (length ?k) ?rest) '':''"
    by (simp_all add: spec_well_formed_header_def Let_def)
  from s have t: "take (length ''Test Case '') l = ''Test Case ''"
    by (simp only: startswith_def)
  have "l = take (length ''Test Case '') l @ drop (length ''Test Case '') l"
    by (rule append_take_drop_id[symmetric])
  with t obtain r where "l = ''Test Case '' @ r" by metis
  then have 1: "startswith l ''Test Case''" by (simp add: startswith_def)
  let ?x = "drop (length ?k) ?rest"
  from c have u: "take (length '':'') ?x = '':''" by (simp only: startswith_def)
  have "?x = take (length '':'') ?x @ drop (length '':'') ?x"
    by (rule append_take_drop_id[symmetric])
  with u obtain r' where "?x = '':'' @ r'" by metis
  then have "CHR '':'' \<in> set ?x" by simp
  then have "CHR '':'' \<in> set l"
    by (meson in_set_dropD)
  with 1 show ?thesis by (simp add: is_header_def)
qed

lemma save_test_cases_success:
  "(\<exists>out. save_test_cases fs tcs p = Inr (True, out)) \<longleftrightarrow>
     tcs \<noteq> [] \<and> makedirs_parent fs p = None \<and> to_excel fs p (map processed_case tcs) = None"
  by (auto simp: save_test_cases_def save_handler_def split: option.splits py_exception.splits)

lemma processed_case_numbered:
  "good_case t \<Longrightarrow> processed_case t = numbered_row t"
  using steps_text_numbered[of "steps_to_execute t"]
  by (simp add: processed_case_def numbered_row_def good_case_def numbered_def)

lemma parsed_keys:
  assumes st: "process_lines \<lparr>test_cases = [], current_test_case = None, cur_section = None\<rparr>
                 (split_nl reply) = Inr st"
  shows "map (\<lambda>t. (test_case_id t, test_scenario t)) (emitted st) =
      map (\<lambda>h. (strip (takeWhile (\<lambda>x. x \<noteq> CHR '':'') h),
                 strip (tl (dropWhile (\<lambda>x. x \<noteq> CHR '':'') h))))
           (filter is_header (map strip (split_nl reply)))"
proof -
  have hk: "(\<lambda>h. key (new_test_case h)) h =
      (strip (takeWhile (\<lambda>x. x \<noteq> CHR '':'') h), strip (tl (dropWhile (\<lambda>x. x \<noteq> CHR '':'') h)))"
    if "is_header h" for h
    using new_test_case_fields[OF that] by (simp add: key_def)
  have "map key (emitted st) =
      map (\<lambda>h. key (new_test_case h)) (filter is_header (map strip (split_nl reply)))"
    using process_lines_keys[OF st] by simp
  also have "\<dots> = map (\<lambda>h. (strip (takeWhile (\<lambda>x. x \<noteq> CHR '':'') h),
                 strip (tl (dropWhile (\<lambda>x. x \<noteq> CHR '':'') h))))
           (filter is_header (map strip (split_nl reply)))"
    by (rule map_cong) (use hk in auto)
  finally show ?thesis
    by (simp add: key_def[abs_def])
qed

lemma well_formed_filter:
  assumes "list_all (\<lambda>l. is_header l \<longrightarrow> spec_well_formed_header l) ls"
  shows "filter is_header ls = filter spec_well_formed_header ls"
proof (rule filter_cong[OF refl])
  fix l assume "l \<in> set ls"
  with assms have "is_header l \<longrightarrow> spec_well_formed_header l" by (simp add: list_all_iff)
  with well_formed_is_header[of l] show "is_header l = spec_well_formed_header l" by blast
qed

lemma numbered_rows:
  assumes "list_all good_case tcs"
  shows "map processed_case tcs = map numbered_row tcs"
proof (rule map_cong[OF refl])
  fix t assume "t \<in> set tcs"
  with assms have "good_case t" by (simp add: list_all_iff)
  then show "processed_case t = numbered_row t" by (rule processed_case_numbered)
qed

text \<open>
  Claim C1, as the code has it.  For every reply parsed by a new generator the call raises
  nothing, and the records of its list are, in order, one for each line that, stripped,
  starts with \<open>Test Case\<close> or \<open>TC-\<close> and holds a colon: the identifier is the stripped
  text before the first colon of that line and the scenario the stripped text after it.
  So when every such line is a well-formed header \<open>Test Case k: scenario\<close>, a reply
  with \<open>N\<close> well-formed headers gives exactly \<open>N\<close> records, in the order of the
  headers.  For every file system, \<open>save_test_cases\<close> on the parsed records returns
  \<open>True\<close> exactly when there is a record, the directory can be made, and \<open>to_excel\<close>
  accepts the rows in which the steps of each record are numbered from 1 to their count,
  one on each line, whatever numbers the reply had: these are the rows it is called with.
  The reply of the example parses to the one record the specification gives.  As stated
  the claim fails: a line such as \<open>Test Cases for the login page:\<close> before the one
  well-formed header of a reply is read as a header too, and two records are emitted.
\<close>

theorem records_follow_headers:
  "(\<exists>res. process_ai_response [] reply = Inr res \<and>
     map (\<lambda>t. (test_case_id t, test_scenario t)) (self_test_cases res) =
       map (\<lambda>h. (strip (takeWhile (\<lambda>x. x \<noteq> CHR '':'') h),
                 strip (tl (dropWhile (\<lambda>x. x \<noteq> CHR '':'') h))))
           (filter is_header (map strip (split_nl reply))) \<and>
     (list_all (\<lambda>l. is_header l \<longrightarrow> spec_well_formed_header l) (map strip (split_nl reply)) \<longrightarrow>
        length (self_test_cases res) =
          length (filter spec_well_formed_header (map strip (split_nl reply))) \<and>
        map (\<lambda>t. (test_case_id t, test_scenario t)) (self_test_cases res) =
          map (\<lambda>h. (strip (takeWhile (\<lambda>x. x \<noteq> CHR '':'') h),
                    strip (tl (dropWhile (\<lambda>x. x \<noteq> CHR '':'') h))))
              (filter spec_well_formed_header (map strip (split_nl reply)))) \<and>
     (\<forall>fs path.
        (\<exists>out. save_test_cases fs (self_test_cases res) path = Inr (True, out)) \<longleftrightarrow>
        (self_test_cases res \<noteq> [] \<and> makedirs_parent fs path = None \<and>
         to_excel fs path (map numbered_row (self_test_cases res)) = None))) \<and>
   process_ai_response []
     ''Test Case 1: Login\<newline>Steps to Execute\<newline>1. Open page\<newline>2. Enter credentials\<newline>Expected Result\<newline>User is logged in''
   = Inr \<lparr>self_test_cases =
            [\<lparr>test_case_id = ''Test Case 1'', test_scenario = ''Login'',
              steps_to_execute = [''Open page'', ''Enter credentials''],
              expected_result = ''User is logged in''\<rparr>],
          returned =
            [\<lparr>test_case_id = ''Test Case 1'', test_scenario = ''Login'',
              steps_to_execute = [''Open page'', ''Enter credentials''],
              expected_result = ''User is logged in''\<rparr>],
          printed = []\<rparr>"
proof -
  let ?lines = "map strip (split_nl reply)"
  let ?fields = "\<lambda>h. (strip (takeWhile (\<lambda>x. x \<noteq> CHR '':'') h),
                    strip (tl (dropWhile (\<lambda>x. x \<noteq> CHR '':'') h)))"
  let ?st0 = "\<lparr>test_cases = [], current_test_case = None, cur_section = None\<rparr>"
  obtain st where st: "process_lines ?st0 (split_nl reply) = Inr st"
    using process_lines_Inr by blast
  from process_ai_response_raw[OF st] obtain res where
    res: "process_ai_response [] reply = Inr res" "self_test_cases res = emitted st"
    by blast
  have k: "map (\<lambda>t. (test_case_id t, test_scenario t)) (self_test_cases res) =
          map ?fields (filter is_header ?lines)"
    unfolding res(2) by (rule parsed_keys[OF st])
  have w: "length (self_test_cases res) = length (filter spec_well_formed_header ?lines) \<and>
        map (\<lambda>t. (test_case_id t, test_scenario t)) (self_test_cases res) =
          map ?fields (filter spec_well_formed_header ?lines)"
    if h: "list_all (\<lambda>l. is_header l \<longrightarrow> spec_well_formed_header l) ?lines"
  proof -
    have e: "map (\<lambda>t. (test_case_id t, test_scenario t)) (self_test_cases res) =
          map ?fields (filter spec_well_formed_header ?lines)"
      using k unfolding well_formed_filter[OF h] .
    from e have "length (self_test_cases res) = length (filter spec_well_formed_header ?lines)"
      by (rule map_eq_imp_length_eq)
    with e show ?thesis by (rule conjI[rotated])
  qed
  have "\<forall>l\<in>set (split_nl reply). CHR ''\<newline>'' \<notin> set l"
    using split_nl_no_newline by blast
  from process_lines_good[OF this _ st] have g: "list_all good_case (self_test_cases res)"
    unfolding res(2) by simp
  have s: "(\<exists>out. save_test_cases fs (self_test_cases res) path = Inr (True, out)) \<longleftrightarrow>
        (self_test_cases res \<noteq> [] \<and> makedirs_parent fs path = None \<and>
         to_excel fs path (map numbered_row (self_test_cases res)) = None)" for fs path
    using save_test_cases_success[of fs "self_test_cases res" path]
    unfolding numbered_rows[OF g] .
  have ex: "process_ai_response []
     ''Test Case 1: Login\<newline>Steps to Execute\<newline>1. Open page\<newline>2. Enter credentials\<newline>Expected Result\<newline>User is logged in''
   = Inr \<lparr>self_test_cases =
            [\<lparr>test_case_id = ''Test Case 1'', test_scenario = ''Login'',
              steps_to_execute = [''Open page'', ''Enter credentials''],
              expected_result = ''User is logged in''\<rparr>],
          returned =
            [\<lparr>test_case_id = ''Test Case 1'', test_scenario = ''Login'',
              steps_to_execute = [''Open page'', ''Enter credentials''],
              expected_result = ''User is logged in''\<rparr>],
          printed = []\<rparr>"
    by code_simp
  define P where "P r \<longleftrightarrow>
     process_ai_response [] reply = Inr r \<and>
     map (\<lambda>t. (test_case_id t, test_scenario t)) (self_test_cases r) =
       map ?fields (filter is_header ?lines) \<and>
     (list_all (\<lambda>l. is_header l \<longrightarrow> spec_well_formed_header l) ?lines \<longrightarrow>
        length (self_test_cases r) = length (filter spec_well_formed_header ?lines) \<and>
        map (\<lambda>t. (test_case_id t, test_scenario t)) (self_test_cases r) =
          map ?fields (filter spec_well_formed_header ?lines)) \<and>
     (\<forall>fs path.
        (\<exists>out. save_test_cases fs (self_test_cases r) path = Inr (True, out)) \<longleftrightarrow>
        (self_test_cases r \<noteq> [] \<and> makedirs_parent fs path = None \<and>
         to_excel fs path (map numbered_row (self_test_cases r)) = None))" for r
  have "P res"
    unfolding P_def
  proof (rule conjI[OF res(1)], rule conjI[OF k], rule conjI)
    show "list_all (\<lambda>l. is_header l \<longrightarrow> spec_well_formed_header l) ?lines \<longrightarrow>
        length (self_test_cases res) = length (filter spec_well_formed_header ?lines) \<and>
        map (\<lambda>t. (test_case_id t, test_scenario t)) (self_test_cases res) =
          map ?fields (filter spec_well_formed_header ?lines)"
      by (rule impI, rule w, assumption)
    show "\<forall>fs path.
        (\<exists>out. save_test_cases fs (self_test_cases res) path = Inr (True, out)) \<longleftrightarrow>
        (self_test_cases res \<noteq> [] \<and> makedirs_parent fs path = None \<and>
         to_excel fs path (map numbered_row (self_test_cases res)) = None)"
      by (intro allI s)
  qed
  then have "\<exists>r. P r" by (rule exI)
  then have "\<exists>res. process_ai_response [] reply = Inr res \<and>
     map (\<lambda>t. (test_case_id t, test_scenario t)) (self_test_cases res) =
       map ?fields (filter is_header ?lines) \<and>
     (list_all (\<lambda>l. is_header l \<longrightarrow> spec_well_formed_header l) ?lines \<longrightarrow>
        length (self_test_cases res) = length (filter spec_well_formed_header ?lines) \<and>
        map (\<lambda>t. (test_case_id t, test_scenario t)) (self_test_cases res) =
          map ?fields (filter spec_well_formed_header ?lines)) \<and>
     (\<forall>fs path.
        (\<exists>out. save_test_cases fs (self_test_cases res) path = Inr (True, out)) \<longleftrightarrow>
        (self_test_cases res \<noteq> [] \<and> makedirs_parent fs path = None \<and>
         to_excel fs path (map numbered_row (self_test_cases res)) = None))"
    unfolding P_def .
  then show ?thesis using ex by (rule conjI)
qed

theorem records_follow_headers_witness:
  "length [\<lparr>test_case_id = ''Test Case 1'', test_scenario = ''Login'',
        steps_to_execute = [''Open page'', ''Enter credentials''],
        expected_result = ''User is logged in''\<rparr>] =
     length (filter spec_well_formed_header (map strip (split_nl
       ''Test Case 1: Login\<newline>Steps to Execute\<newline>1. Open page\<newline>2. Enter credentials\<newline>Expected Result\<newline>User is logged in''))) \<and>
   (\<exists>out. save_test_cases
      \<lparr>makedirs_parent = (\<lambda>p. None),
       to_excel = (\<lambda>p rows.
          if rows = [[(''Test Case ID'', ''Test Case 1''), (''Test Scenario'', ''Login''),
                      (''Steps to Execute'', ''1. Open page\<newline>2. Enter credentials''),
                      (''Expected Result'', ''User is logged in'')]]
          then None else Some (ExceptionInstance ''other rows''))\<rparr>
      [\<lparr>test_case_id = ''Test Case 1'', test_scenario = ''Login'',
        steps_to_execute = [''Open page'', ''Enter credentials''],
        expected_result = ''User is logged in''\<rparr>]
      ''output/test_cases.xlsx'' = Inr (True, out))"
proof -
  let ?r = "''Test Case 1: Login\<newline>Steps to Execute\<newline>1. Open page\<newline>2. Enter credentials\<newline>Expected Result\<newline>User is logged in''"
  let ?t = "\<lparr>test_case_id = ''Test Case 1'', test_scenario = ''Login'',
       steps_to_execute = [''Open page'', ''Enter credentials''],
       expected_result = ''User is logged in''\<rparr>"
  let ?fs = "\<lparr>makedirs_parent = (\<lambda>p. None),
       to_excel = (\<lambda>p rows.
          if rows = [[(''Test Case ID'', ''Test Case 1''), (''Test Scenario'', ''Login''),
                      (''Steps to Execute'', ''1. Open page\<newline>2. Enter credentials''),
                      (''Expected Result'', ''User is logged in'')]]
          then None else Some (ExceptionInstance ''other rows''))\<rparr>"
  have ev: "process_ai_response [] ?r = Inr \<lparr>self_test_cases = [?t], returned = [?t], printed = []\<rparr>"
    by code_simp
  from records_follow_headers[of ?r, THEN conjunct1] obtain res where
    r: "process_ai_response [] ?r = Inr res"
       "list_all (\<lambda>l. is_header l \<longrightarrow> spec_well_formed_header l) (map strip (split_nl ?r)) \<longrightarrow>
        length (self_test_cases res) =
          length (filter spec_well_formed_header (map strip (split_nl ?r))) \<and>
        map (\<lambda>t. (test_case_id t, test_scenario t)) (self_test_cases res) =
          map (\<lambda>h. (strip (takeWhile (\<lambda>x. x \<noteq> CHR '':'') h),
                    strip (tl (dropWhile (\<lambda>x. x \<noteq> CHR '':'') h))))
              (filter spec_well_formed_header (map strip (split_nl ?r)))"
       "\<forall>fs path.
        (\<exists>out. save_test_cases fs (self_test_cases res) path = Inr (True, out)) \<longleftrightarrow>
        (self_test_cases res \<noteq> [] \<and> makedirs_parent fs path = None \<and>
         to_excel fs path (map numbered_row (self_test_cases res)) = None)"
    by (elim exE conjE)
  have "Inr res = (Inr \<lparr>self_test_cases = [?t], returned = [?t], printed = []\<rparr> :: py_error + process_result)"
    by (rule trans[OF r(1)[symmetric] ev])
  then have "res = \<lparr>self_test_cases = [?t], returned = [?t], printed = []\<rparr>" by simp
  then have tcs: "self_test_cases res = [?t]" by simp
  have rows: "map numbered_row [?t] =
      [[(''Test Case ID'', ''Test Case 1''), (''Test Scenario'', ''Login''),
        (''Steps to Execute'', ''1. Open page\<newline>2. Enter credentials''),
        (''Expected Result'', ''User is logged in'')]]"
    by code_simp
  have "[?t] \<noteq> [] \<and> makedirs_parent ?fs ''output/test_cases.xlsx'' = None \<and>
      to_excel ?fs ''output/test_cases.xlsx'' (map numbered_row [?t]) = None"
    unfolding rows by simp
  with r(3)[rule_format, of ?fs "''output/test_cases.xlsx''"] have
    sv: "\<exists>out. save_test_cases ?fs [?t] ''output/test_cases.xlsx'' = Inr (True, out)"
    unfolding tcs by (rule iffD2)
  have h: "list_all (\<lambda>l. is_header l \<longrightarrow> spec_well_formed_header l) (map strip (split_nl ?r))"
    by code_simp
  from r(2)[THEN mp, OF h, THEN conjunct1] have
    n: "length [?t] = length (filter spec_well_formed_header (map strip (split_nl ?r)))"
    unfolding tcs .
  from n sv show ?thesis by (rule conjI)
qed

theorem records_follow_headers_counterexample:
  "filter spec_well_formed_header (map strip (split_nl
      ''Test Cases for the login page:\<newline>Test Case 1: Login\<newline>Steps to Execute\<newline>1. Open page\<newline>Expected Result\<newline>User is logged in''))
     = [''Test Case 1: Login''] \<and>
   process_ai_response []
      ''Test Cases for the login page:\<newline>Test Case 1: Login\<newline>Steps to Execute\<newline>1. Open page\<newline>Expected Result\<newline>User is logged in''
     = Inr \<lparr>self_test_cases =
              [\<lparr>test_case_id = ''Test Cases for the login page'', test_scenario = '''',
                steps_to_execute = [], expected_result = ''''\<rparr>,
               \<lparr>test_case_id = ''Test Case 1'', test_scenario = ''Login'',
                steps_to_execute = [''Open page''], expected_result = ''User is logged in''\<rparr>],
            returned =
              [\<lparr>test_case_id = ''Test Cases for the login page'', test_scenario = '''',
                steps_to_execute = [], expected_result = ''''\<rparr>,
               \<lparr>test_case_id = ''Test Case 1'', test_scenario = ''Login'',
                steps_to_execute = [''Open page''], expected_result = ''User is logged in''\<rparr>],
            printed = []\<rparr>"
  by code_simp

subsection \<open>The last record\<close>

text \<open>
  Claim C3.  When a line of the reply is a header and no later line is one, the call
  raises nothing and the last record of the generator's list, which is also the list
  returned, is the record opened by that header and filled from the lines after it: its
  identifier and scenario are those of the header.  No further header is needed.
\<close>

theorem trailing_record_emitted:
  assumes "split_nl reply = pre @ h # post" and "is_header (strip h)"
    and "\<forall>l\<in>set post. \<not> is_header (strip l)"
  shows "\<exists>res st cur.
           process_ai_response tcs reply = Inr res \<and>
           process_lines \<lparr>test_cases = [], current_test_case = Some (new_test_case (strip h)),
                          cur_section = None\<rparr> post = Inr st \<and>
           current_test_case st = Some cur \<and>
           self_test_cases res \<noteq> [] \<and> last (self_test_cases res) = cur \<and>
           returned res = self_test_cases res \<and>
           test_case_id cur = strip (takeWhile (\<lambda>x. x \<noteq> CHR '':'') (strip h)) \<and>
           test_scenario cur = strip (tl (dropWhile (\<lambda>x. x \<noteq> CHR '':'') (strip h)))"
proof -
  let ?st0 = "\<lparr>test_cases = tcs, current_test_case = None, cur_section = None\<rparr>"
  let ?stA = "\<lparr>test_cases = [], current_test_case = Some (new_test_case (strip h)),
               cur_section = None\<rparr>"
  obtain st1 where st1: "process_lines ?st0 pre = Inr st1" using process_lines_Inr by blast
  obtain st where st: "process_lines ?stA post = Inr st" using process_lines_Inr by blast
  from process_lines_no_header[OF st assms(3)] obtain cur where
    cur: "current_test_case st = Some cur" "test_cases st = []" by auto
  let ?st2 = "\<lparr>test_cases = emitted st1, current_test_case = Some (new_test_case (strip h)),
               cur_section = None\<rparr>"
  have "process_lines (?stA\<lparr>test_cases := emitted st1 @ test_cases ?stA\<rparr>) post
      = Inr (st\<lparr>test_cases := emitted st1 @ test_cases st\<rparr>)"
    by (rule process_lines_shift[OF st])
  then have "process_lines ?st2 post = Inr (st\<lparr>test_cases := emitted st1 @ test_cases st\<rparr>)"
    by simp
  with st1 assms(1) process_line_header[OF assms(2), of st1]
  have all: "process_lines ?st0 (split_nl reply) = Inr (st\<lparr>test_cases := emitted st1 @ test_cases st\<rparr>)"
    by (simp add: process_lines_append)
  from assms(1) have "h \<in> set (split_nl reply)" by simp
  moreover from assms(2) have "\<not> blank h" using is_header_not_Nil blank_strip by blast
  ultimately have nb: "strip reply \<noteq> []" using blank_lines by blast
  from process_ai_response_raw[OF all] nb cur obtain res where
    res: "process_ai_response tcs reply = Inr res" "self_test_cases res = emitted st1 @ [cur]"
      "returned res = emitted st1 @ [cur]"
    by (auto simp: emitted_def)
  from process_lines_keys[OF st] assms(3) cur have "key cur = key (new_test_case (strip h))"
    by (simp add: emitted_def filter_empty_conv[THEN iffD2])
  with new_test_case_fields[OF assms(2)] have
    "test_case_id cur = strip (takeWhile (\<lambda>x. x \<noteq> CHR '':'') (strip h))"
    "test_scenario cur = strip (tl (dropWhile (\<lambda>x. x \<noteq> CHR '':'') (strip h)))"
    by (simp_all add: key_def)
  with res st cur show ?thesis by simp
qed

theorem trailing_record_emitted_witness:
  "\<exists>res. process_ai_response []
            ''TC-1: A\<newline>Steps\<newline>1. x\<newline>TC-2: B\<newline>Expected\<newline>ok\<newline>'' = Inr res \<and>
         last (self_test_cases res) =
           \<lparr>test_case_id = ''TC-2'', test_scenario = ''B'', steps_to_execute = [],
            expected_result = ''ok''\<rparr>"
proof -
  let ?r = "''TC-1: A\<newline>Steps\<newline>1. x\<newline>TC-2: B\<newline>Expected\<newline>ok\<newline>''"
  have h1: "split_nl ?r = [''TC-1: A'', ''Steps'', ''1. x''] @ ''TC-2: B'' # [''Expected'', ''ok'', '''']"
    by code_simp
  have h2: "is_header (strip ''TC-2: B'')" by code_simp
  have h3: "\<forall>l\<in>set [''Expected'', ''ok'', '''']. \<not> is_header (strip l)" by code_simp
  have ev: "process_lines \<lparr>test_cases = [], current_test_case = Some (new_test_case (strip ''TC-2: B'')),
                          cur_section = None\<rparr> [''Expected'', ''ok'', '''']
      = Inr \<lparr>test_cases = [], current_test_case =
              Some \<lparr>test_case_id = ''TC-2'', test_scenario = ''B'', steps_to_execute = [],
                    expected_result = ''ok''\<rparr>, cur_section = Some ExpectedResult\<rparr>"
    by code_simp
  from trailing_record_emitted[OF h1 h2 h3, of "[]"] obtain res st cur where
    r: "process_ai_response [] ?r = Inr res"
       "process_lines \<lparr>test_cases = [], current_test_case = Some (new_test_case (strip ''TC-2: B'')),
                          cur_section = None\<rparr> [''Expected'', ''ok'', ''''] = Inr st"
       "current_test_case st = Some cur" "last (self_test_cases res) = cur"
    by blast
  have "Inr st = (Inr \<lparr>test_cases = [], current_test_case =
              Some \<lparr>test_case_id = ''TC-2'', test_scenario = ''B'', steps_to_execute = [],
                    expected_result = ''ok''\<rparr>, cur_section = Some ExpectedResult\<rparr>
              :: py_error + parse_state)"
    by (rule trans[OF r(2)[symmetric] ev])
  then have "current_test_case st = Some \<lparr>test_case_id = ''TC-2'', test_scenario = ''B'',
      steps_to_execute = [], expected_result = ''ok''\<rparr>" by auto
  with r(3) have "cur = \<lparr>test_case_id = ''TC-2'', test_scenario = ''B'', steps_to_execute = [],
            expected_result = ''ok''\<rparr>" by simp
  with r show ?thesis by blast
qed

subsection \<open>Lines of the steps section\<close>

text \<open>
  Where the code and the rule of the specification agree: on a line that does not start
  with a digit, and, up to the stripping of the text kept, on a line with a numeric prefix.
\<close>

lemma step_line_not_digit:
  assumes "line \<noteq> []" "\<not> isdigit (hd line)"
  shows "add_step_line steps line = Inr (spec_step_line steps line)"
proof -
  obtain c cs where l: "line = c # cs" using assms(1) by (cases line) auto
  with assms(2) have "takeWhile isdigit line = []" by simp
  then have "spec_numeric_prefix line = None" by (simp add: spec_numeric_prefix_def)
  with l assms(2) show ?thesis
    by (simp add: add_step_line_def first_char_def spec_step_line_def)
qed

lemma isdigit_not_stop: "isdigit c \<Longrightarrow> c \<noteq> CHR ''.''"
  by (auto simp: isdigit_def)

lemma before_sep_digits:
  "\<forall>c\<in>set ds. isdigit c \<Longrightarrow> startswith rest ''. '' \<Longrightarrow>
   before_sep ''. '' (ds @ rest) = ds \<and> contains ''. '' (ds @ rest)"
proof (induction ds)
  case Nil
  then show ?case by (cases rest) (auto simp: startswith_def)
next
  case (Cons d ds)
  then have "d \<noteq> CHR ''.''" by (simp add: isdigit_not_stop)
  then have "\<not> startswith (d # ds @ rest) ''. ''" by (simp add: startswith_def)
  with Cons show ?case by simp
qed

lemma step_line_numeric_prefix:
  assumes "spec_numeric_prefix line = Some k"
  shows "add_step_line steps line = Inr (steps @ [strip (drop k line)]) \<and>
         spec_step_line steps line = steps @ [drop k line]"
proof -
  let ?ds = "takeWhile isdigit line"
  from assms have n: "0 < length ?ds" "startswith (drop (length ?ds) line) ''. ''"
    "k = length ?ds + 2"
    by (auto simp: spec_numeric_prefix_def Let_def split: if_splits)
  have d: "line = ?ds @ drop (length ?ds) line"
    by (metis append_take_drop_id takeWhile_eq_take)
  have "\<forall>c\<in>set ?ds. isdigit c" by (auto dest: set_takeWhileD)
  from before_sep_digits[OF this n(2)] d
  have b: "before_sep ''. '' line = ?ds" "contains ''. '' line" by simp_all
  from n(1) obtain c cs where l: "line = c # cs" by (cases line) auto
  with n(1) have "isdigit c" by (auto split: if_splits)
  with l b n(3) have "add_step_line steps line = Inr (steps @ [strip (drop k line)])"
    by (simp add: add_step_line_def first_char_def Let_def)
  moreover from assms have "spec_step_line steps line = steps @ [drop k line]"
    by (simp add: spec_step_line_def)
  ultimately show ?thesis by simp
qed

text \<open>
  Claim C2, at an input where the code departs from it.  In the steps section, after the
  step \<open>Open page\<close>, the line \<open>2 users log in. Both see the dashboard\<close> has no
  numeric prefix, so by the claim it is joined to the last step.  The code takes it for a
  numbered step, because its first character is a digit and a full stop followed by a
  space occurs somewhere in it, and keeps only the text after that full stop.
\<close>

theorem step_line_without_numeric_prefix:
  "spec_numeric_prefix ''2 users log in. Both see the dashboard'' = None \<and>
   spec_step_line [''Open page''] ''2 users log in. Both see the dashboard''
     = [''Open page 2 users log in. Both see the dashboard''] \<and>
   add_step_line [''Open page''] ''2 users log in. Both see the dashboard''
     = Inr [''Open page'', ''Both see the dashboard''] \<and>
   process_ai_response []
     ''Test Case 1: Login\<newline>Steps to Execute\<newline>1. Open page\<newline>2 users log in. Both see the dashboard''
     = Inr \<lparr>self_test_cases =
              [\<lparr>test_case_id = ''Test Case 1'', test_scenario = ''Login'',
                steps_to_execute = [''Open page'', ''Both see the dashboard''],
                expected_result = ''''\<rparr>],
            returned =
              [\<lparr>test_case_id = ''Test Case 1'', test_scenario = ''Login'',
                steps_to_execute = [''Open page'', ''Both see the dashboard''],
                expected_result = ''''\<rparr>],
            printed = []\<rparr>"
  by code_simp

theorem step_line_without_numeric_prefix_witness:
  "add_step_line [''Open page''] ''2 users log in. Both see the dashboard''
     \<noteq> Inr (spec_step_line [''Open page''] ''2 users log in. Both see the dashboard'')"
  using step_line_without_numeric_prefix by simp

section \<open>Properties of the element digest\<close>

subsection \<open>Entries and headers\<close>

lemma indented_button: "indented (format_button i b)"
  by (simp add: indented_def format_button_def)

lemma indented_link: "indented (format_link i b)"
  by (simp add: indented_def format_link_def)

lemma indented_input: "y \<in> set (format_input i f) \<Longrightarrow> indented y"
  by (auto simp: indented_def format_input_def Let_def split: if_splits)

lemma indented_form: "y \<in> set (format_form i f) \<Longrightarrow> indented y"
  by (auto simp: indented_def format_form_def format_form_input_def Let_def split: if_splits)

lemma indented_header: "indented (format_header h)"
  by (simp add: indented_def format_header_def)

lemma indented_nav: "y \<in> set (format_nav n) \<Longrightarrow> indented y"
  by (auto simp: indented_def format_nav_def format_nav_item_def Let_def split: if_splits)

lemma category_entries_empty:
  "sequence = None \<or> sequence = Some [] \<Longrightarrow> category_entries header sequence fmt = []"
  by (auto simp: category_entries_def)

lemma category_entries_other:
  assumes "x \<noteq> header" "\<not> indented x" "\<And>xs y. y \<in> set (fmt xs) \<Longrightarrow> indented y"
  shows "x \<notin> set (category_entries header sequence fmt)"
  using assms by (auto simp: category_entries_def split: option.splits)

lemma category_entries_member:
  "sequence = Some xs \<Longrightarrow> xs \<noteq> [] \<Longrightarrow> y \<in> set (fmt xs) \<Longrightarrow>
   y \<in> set (category_entries header sequence fmt)"
  by (auto simp: category_entries_def)

lemma buttons_indented:
  "y \<in> set (map (\<lambda>(idx, button). format_button idx button) (enumerate 1 xs)) \<Longrightarrow> indented y"
  by (auto simp: indented_button)

lemma links_indented:
  "y \<in> set (map (\<lambda>(idx, link). format_link idx link) (enumerate 1 xs)) \<Longrightarrow> indented y"
  by (auto simp: indented_link)

lemma inputs_indented:
  "y \<in> set (concat (map (\<lambda>(idx, input_field). format_input idx input_field) (enumerate 1 xs)))
   \<Longrightarrow> indented y"
  by (auto dest: indented_input)

lemma forms_indented:
  "y \<in> set (concat (map (\<lambda>(idx, form). format_form idx form) (enumerate 1 xs))) \<Longrightarrow> indented y"
  by (auto dest: indented_form)

lemma headers_indented: "y \<in> set (map format_header xs) \<Longrightarrow> indented y"
  by (auto simp: indented_header)

lemma navs_indented: "y \<in> set (concat (map format_nav xs)) \<Longrightarrow> indented y"
  by (auto dest: indented_nav)

lemma header_absent:
  assumes "x \<in> {''BUTTONS:'', ''\<newline>LINKS:'', ''\<newline>INPUT FIELDS:'', ''\<newline>FORMS:'',
                 ''\<newline>PAGE HEADERS:'', ''\<newline>NAVIGATION MENUS:''}"
    and "x = ''BUTTONS:'' \<Longrightarrow> el_buttons e = None \<or> el_buttons e = Some []"
    and "x = ''\<newline>LINKS:'' \<Longrightarrow> el_links e = None \<or> el_links e = Some []"
    and "x = ''\<newline>INPUT FIELDS:'' \<Longrightarrow> el_inputs e = None \<or> el_inputs e = Some []"
    and "x = ''\<newline>FORMS:'' \<Longrightarrow> el_forms e = None \<or> el_forms e = Some []"
    and "x = ''\<newline>PAGE HEADERS:'' \<Longrightarrow>
           \<forall>md ps. el_metadata e = Some md \<and> md_page_structure md = Some ps \<longrightarrow>
                   ps_headers ps = None \<or> ps_headers ps = Some []"
    and "x = ''\<newline>NAVIGATION MENUS:'' \<Longrightarrow>
           \<forall>md ps. el_metadata e = Some md \<and> md_page_structure md = Some ps \<longrightarrow>
                   ps_navigation ps = None \<or> ps_navigation ps = Some []"
  shows "x \<notin> set (formatted_elements e)"
proof -
  from assms(1) have ni: "\<not> indented x" by (auto simp: indented_def)
  have c: "x \<notin> set (category_entries header sequence fmt)"
    if "x = header \<Longrightarrow> sequence = None \<or> sequence = Some []"
      and "\<And>xs y. y \<in> set (fmt xs) \<Longrightarrow> indented y"
    for header and sequence :: "'a list option" and fmt
  proof (cases "x = header")
    case True
    with that(1) show ?thesis by (simp add: category_entries_empty)
  next
    case False
    with ni that(2) show ?thesis
      by (auto simp: category_entries_def split: option.splits)
  qed
  have 1: "x \<notin> set (category_entries ''BUTTONS:'' (el_buttons e)
       (\<lambda>xs. map (\<lambda>(idx, button). format_button idx button) (enumerate 1 xs)))"
    by (rule c) (use assms(2) buttons_indented in blast)+
  have 2: "x \<notin> set (category_entries ''\<newline>LINKS:'' (el_links e)
       (\<lambda>xs. map (\<lambda>(idx, link). format_link idx link) (enumerate 1 xs)))"
    by (rule c) (use assms(3) links_indented in blast)+
  have 3: "x \<notin> set (category_entries ''\<newline>INPUT FIELDS:'' (el_inputs e)
       (\<lambda>xs. concat (map (\<lambda>(idx, input_field). format_input idx input_field)
                         (enumerate 1 xs))))"
    by (rule c) (use assms(4) inputs_indented in blast)+
  have 4: "x \<notin> set (category_entries ''\<newline>FORMS:'' (el_forms e)
       (\<lambda>xs. concat (map (\<lambda>(idx, form). format_form idx form) (enumerate 1 xs))))"
    by (rule c) (use assms(5) forms_indented in blast)+
  have 5: "x \<notin> set (category_entries ''\<newline>PAGE HEADERS:'' (ps_headers ps) (map format_header))"
    if "el_metadata e = Some md" "md_page_structure md = Some ps" for md ps
    by (rule c) (use assms(6) that headers_indented in blast)+
  have 6: "x \<notin> set (category_entries ''\<newline>NAVIGATION MENUS:'' (ps_navigation ps)
                 (\<lambda>xs. concat (map format_nav xs)))"
    if "el_metadata e = Some md" "md_page_structure md = Some ps" for md ps
    by (rule c) (use assms(7) that navs_indented in blast)+
  have 0: "x \<noteq> ''SITE DESCRIPTION: '' @ d @ ''\<newline>''" for d
    using assms(1) by auto
  show ?thesis
  proof (cases "el_metadata e")
    case None
    with 1 2 3 4 show ?thesis by (simp add: formatted_elements_def)
  next
    case (Some md)
    show ?thesis
    proof (cases "md_page_structure md")
      case None
      with Some 0 1 2 3 4 show ?thesis
        by (simp add: formatted_elements_def split: option.splits)
    next
      case ps: (Some ps)
      with Some 0 1 2 3 4 5[OF Some ps] 6[OF Some ps] show ?thesis
        by (simp add: formatted_elements_def split: option.splits)
    qed
  qed
qed

subsection \<open>Truncated lists\<close>

lemma formatted_elements_inputs:
  assumes "el_inputs e = Some ins" "ins \<noteq> []"
    "y \<in> set (concat (map (\<lambda>(idx, input_field). format_input idx input_field) (enumerate 1 ins)))"
  shows "y \<in> set (formatted_elements e)"
proof -
  have "y \<in> set (category_entries ''\<newline>INPUT FIELDS:'' (el_inputs e)
       (\<lambda>xs. concat (map (\<lambda>(idx, input_field). format_input idx input_field)
                         (enumerate 1 xs))))"
    using assms by (intro category_entries_member[where xs = ins]) simp_all
  then show ?thesis by (simp add: formatted_elements_def)
qed

lemma select_entry:
  assumes "get_attr (input_attrs f) ''element_type'' ''input'' = ''select''"
    "5 < length (input_options f)"
  shows "format_input idx f =
     [''  '' @ str_nat idx @ ''. select dropdown (name='' @
      get_attr (input_attrs f) ''name'' ''[No name]'' @ '', options: '' @
      join '', '' (map (\<lambda>opt. get_attr opt ''text'' ''Option'') (take 5 (input_options f))) @
      '', ... ('' @ str_nat (length (input_options f) - 5) @ '' more)'' @ '')'']"
  using assms by (simp add: format_input_def options_text_def Let_def)

lemma nav_entries:
  assumes "5 < length (nav_items nav)"
  shows "format_nav nav =
     (''  - Navigation (id='' @ get_attr (nav_attrs nav) ''id'' ''[No ID]'' @ '', '' @
        str_nat (length (nav_items nav)) @ '' items)'') #
     map (\<lambda>(i, item). format_nav_item i item) (enumerate 1 (take 5 (nav_items nav))) @
     [''    ... ('' @ str_nat (length (nav_items nav) - 5) @ '' more items)'']"
  using assms by (simp add: format_nav_def Let_def)

lemma formatted_elements_nav:
  assumes "el_metadata e = Some md" "md_page_structure md = Some ps"
    "ps_navigation ps = Some navs" "nav \<in> set navs"
  shows "\<exists>before after. formatted_elements e = before @ format_nav nav @ after"
proof -
  from assms(4) obtain a b where ab: "navs = a @ nav # b" by (auto simp: in_set_conv_decomp)
  then have ne: "navs \<noteq> []" by simp
  let ?pre = "(case md_description md of None \<Rightarrow> []
           | Some d \<Rightarrow> [''SITE DESCRIPTION: '' @ d @ ''\<newline>'']) @
     category_entries ''BUTTONS:'' (el_buttons e)
       (\<lambda>xs. map (\<lambda>(idx, button). format_button idx button) (enumerate 1 xs)) @
     category_entries ''\<newline>LINKS:'' (el_links e)
       (\<lambda>xs. map (\<lambda>(idx, link). format_link idx link) (enumerate 1 xs)) @
     category_entries ''\<newline>INPUT FIELDS:'' (el_inputs e)
       (\<lambda>xs. concat (map (\<lambda>(idx, input_field). format_input idx input_field)
                         (enumerate 1 xs))) @
     category_entries ''\<newline>FORMS:'' (el_forms e)
       (\<lambda>xs. concat (map (\<lambda>(idx, form). format_form idx form) (enumerate 1 xs))) @
     category_entries ''\<newline>PAGE HEADERS:'' (ps_headers ps) (map format_header)"
  have "formatted_elements e =
      (?pre @ ''\<newline>NAVIGATION MENUS:'' # concat (map format_nav a)) @ format_nav nav @
      concat (map format_nav b)"
    using assms(1-3) ab by (simp add: formatted_elements_def category_entries_def)
  then show ?thesis by blast
qed

text \<open>
  Claim C7, as the code has it.  The entries of the digest hold the header of a category
  only when its sequence is there and not empty, for each of the six categories.  A
  select element with more than five options has the texts of its first five options,
  then \<open>, ... (N more)\<close> with \<open>N\<close> the number of options left out; a navigation menu
  with more than five items has its line, its first five items and then the line
  \<open>... (N more items)\<close>, next to each other in the digest.  The noun of that line is in
  the plural for every \<open>N\<close>: a menu of six items ends with \<open>... (1 more items)\<close>, so the
  suffix is not correctly pluralized.
\<close>

theorem digest_headers_and_truncation:
  "((el_buttons e = None \<or> el_buttons e = Some []) \<longrightarrow>
      ''BUTTONS:'' \<notin> set (formatted_elements e)) \<and>
   ((el_links e = None \<or> el_links e = Some []) \<longrightarrow>
      ''\<newline>LINKS:'' \<notin> set (formatted_elements e)) \<and>
   ((el_inputs e = None \<or> el_inputs e = Some []) \<longrightarrow>
      ''\<newline>INPUT FIELDS:'' \<notin> set (formatted_elements e)) \<and>
   ((el_forms e = None \<or> el_forms e = Some []) \<longrightarrow>
      ''\<newline>FORMS:'' \<notin> set (formatted_elements e)) \<and>
   ((\<forall>md ps. el_metadata e = Some md \<and> md_page_structure md = Some ps \<longrightarrow>
              ps_headers ps = None \<or> ps_headers ps = Some []) \<longrightarrow>
      ''\<newline>PAGE HEADERS:'' \<notin> set (formatted_elements e)) \<and>
   ((\<forall>md ps. el_metadata e = Some md \<and> md_page_structure md = Some ps \<longrightarrow>
              ps_navigation ps = None \<or> ps_navigation ps = Some []) \<longrightarrow>
      ''\<newline>NAVIGATION MENUS:'' \<notin> set (formatted_elements e)) \<and>
   (el_inputs e = Some ins \<and> i < length ins \<and>
    get_attr (input_attrs (ins ! i)) ''element_type'' ''input'' = ''select'' \<and>
    5 < length (input_options (ins ! i)) \<longrightarrow>
      ''  '' @ str_nat (i + 1) @ ''. select dropdown (name='' @
      get_attr (input_attrs (ins ! i)) ''name'' ''[No name]'' @ '', options: '' @
      join '', '' (map (\<lambda>opt. get_attr opt ''text'' ''Option'')
                     (take 5 (input_options (ins ! i)))) @
      '', ... ('' @ str_nat (length (input_options (ins ! i)) - 5) @ '' more)'' @ '')''
        \<in> set (formatted_elements e)) \<and>
   (el_metadata e = Some md \<and> md_page_structure md = Some ps \<and>
    ps_navigation ps = Some navs \<and> nav \<in> set navs \<and> 5 < length (nav_items nav) \<longrightarrow>
      (\<exists>before after.
         formatted_elements e =
           before @
           (''  - Navigation (id='' @ get_attr (nav_attrs nav) ''id'' ''[No ID]'' @ '', '' @
              str_nat (length (nav_items nav)) @ '' items)'') #
           map (\<lambda>(i, item). format_nav_item i item) (enumerate 1 (take 5 (nav_items nav))) @
           [''    ... ('' @ str_nat (length (nav_items nav) - 5) @ '' more items)''] @
           after))"
proof (intro conjI impI)
  assume "el_buttons e = None \<or> el_buttons e = Some []"
  then show "''BUTTONS:'' \<notin> set (formatted_elements e)"
    by (intro header_absent) simp_all
next
  assume "el_links e = None \<or> el_links e = Some []"
  then show "''\<newline>LINKS:'' \<notin> set (formatted_elements e)"
    by (intro header_absent) simp_all
next
  assume "el_inputs e = None \<or> el_inputs e = Some []"
  then show "''\<newline>INPUT FIELDS:'' \<notin> set (formatted_elements e)"
    by (intro header_absent) simp_all
next
  assume "el_forms e = None \<or> el_forms e = Some []"
  then show "''\<newline>FORMS:'' \<notin> set (formatted_elements e)"
    by (intro header_absent) simp_all
next
  assume "\<forall>md ps. el_metadata e = Some md \<and> md_page_structure md = Some ps \<longrightarrow>
              ps_headers ps = None \<or> ps_headers ps = Some []"
  then show "''\<newline>PAGE HEADERS:'' \<notin> set (formatted_elements e)"
    by (intro header_absent) simp_all
next
  assume "\<forall>md ps. el_metadata e = Some md \<and> md_page_structure md = Some ps \<longrightarrow>
              ps_navigation ps = None \<or> ps_navigation ps = Some []"
  then show "''\<newline>NAVIGATION MENUS:'' \<notin> set (formatted_elements e)"
    by (intro header_absent) simp_all
next
  assume a: "el_inputs e = Some ins \<and> i < length ins \<and>
    get_attr (input_attrs (ins ! i)) ''element_type'' ''input'' = ''select'' \<and>
    5 < length (input_options (ins ! i))"
  let ?entry = "''  '' @ str_nat (i + 1) @ ''. select dropdown (name='' @
      get_attr (input_attrs (ins ! i)) ''name'' ''[No name]'' @ '', options: '' @
      join '', '' (map (\<lambda>opt. get_attr opt ''text'' ''Option'')
                     (take 5 (input_options (ins ! i)))) @
      '', ... ('' @ str_nat (length (input_options (ins ! i)) - 5) @ '' more)'' @ '')''"
  from a have "format_input (i + 1) (ins ! i) = [?entry]" by (intro select_entry) simp_all
  moreover from a have "(i + 1, ins ! i) \<in> set (enumerate 1 ins)"
    by (simp add: in_set_enumerate_eq)
  ultimately have "?entry \<in> set (concat (map (\<lambda>(idx, input_field). format_input idx input_field)
      (enumerate 1 ins)))"
    by force
  moreover from a have "ins \<noteq> []" by auto
  ultimately show "?entry \<in> set (formatted_elements e)"
    using a by (intro formatted_elements_inputs[where ins = ins]) simp_all
next
  assume a: "el_metadata e = Some md \<and> md_page_structure md = Some ps \<and>
    ps_navigation ps = Some navs \<and> nav \<in> set navs \<and> 5 < length (nav_items nav)"
  then obtain before after where "formatted_elements e = before @ format_nav nav @ after"
    using formatted_elements_nav by blast
  with a nav_entries[of nav] show "\<exists>before after.
         formatted_elements e =
           before @
           (''  - Navigation (id='' @ get_attr (nav_attrs nav) ''id'' ''[No ID]'' @ '', '' @
              str_nat (length (nav_items nav)) @ '' items)'') #
           map (\<lambda>(i, item). format_nav_item i item) (enumerate 1 (take 5 (nav_items nav))) @
           [''    ... ('' @ str_nat (length (nav_items nav) - 5) @ '' more items)''] @
           after"
    by (metis append_Cons append_assoc)
qed

theorem digest_headers_and_truncation_witness:
  "''BUTTONS:'' \<notin> set (formatted_elements
      \<lparr>el_metadata = None, el_buttons = None, el_links = Some [],
       el_inputs = Some [\<lparr>input_attrs = [''element_type'' \<mapsto> ''select''],
                         input_required = False,
                         input_options = replicate 6 Map.empty\<rparr>],
       el_forms = None\<rparr>) \<and>
   ''  1. select dropdown (name=[No name], options: Option, Option, Option, Option, Option, ... (1 more))''
     \<in> set (formatted_elements
      \<lparr>el_metadata = None, el_buttons = None, el_links = Some [],
       el_inputs = Some [\<lparr>input_attrs = [''element_type'' \<mapsto> ''select''],
                         input_required = False,
                         input_options = replicate 6 Map.empty\<rparr>],
       el_forms = None\<rparr>)"
proof -
  let ?sel = "\<lparr>input_attrs = [''element_type'' \<mapsto> ''select''], input_required = False,
               input_options = replicate 6 Map.empty\<rparr>"
  let ?e = "\<lparr>el_metadata = None, el_buttons = None, el_links = Some [],
             el_inputs = Some [?sel], el_forms = None\<rparr>"
  note T = digest_headers_and_truncation[of ?e "[?sel]" 0]
  have h1: "el_buttons ?e = None \<or> el_buttons ?e = Some []" by simp
  have 1: "''BUTTONS:'' \<notin> set (formatted_elements ?e)"
    by (rule T[THEN conjunct1, THEN mp, OF h1])
  have h7: "el_inputs ?e = Some [?sel] \<and> 0 < length [?sel] \<and>
      get_attr (input_attrs ([?sel] ! 0)) ''element_type'' ''input'' = ''select'' \<and>
      5 < length (input_options ([?sel] ! 0))"
    by (simp add: get_attr_def)
  have eq: "''  '' @ str_nat (0 + 1) @ ''. select dropdown (name='' @
      get_attr (input_attrs ([?sel] ! 0)) ''name'' ''[No name]'' @ '', options: '' @
      join '', '' (map (\<lambda>opt. get_attr opt ''text'' ''Option'')
                     (take 5 (input_options ([?sel] ! 0)))) @
      '', ... ('' @ str_nat (length (input_options ([?sel] ! 0)) - 5) @ '' more)'' @ '')''
     = ''  1. select dropdown (name=[No name], options: Option, Option, Option, Option, Option, ... (1 more))''"
    by code_simp
  have 7: "''  1. select dropdown (name=[No name], options: Option, Option, Option, Option, Option, ... (1 more))''
      \<in> set (formatted_elements ?e)"
    using T[THEN conjunct2, THEN conjunct2, THEN conjunct2, THEN conjunct2, THEN conjunct2,
            THEN conjunct2, THEN conjunct1, THEN mp, OF h7]
    unfolding eq .
  from 1 7 show ?thesis by (rule conjI)
qed

theorem more_suffix_not_pluralized_counterexample:
  "format_nav \<lparr>nav_attrs = Map.empty, nav_items = replicate 6 Map.empty\<rparr> =
     [''  - Navigation (id=[No ID], 6 items)'',
      ''    1. [No text] (href=[No href])'', ''    2. [No text] (href=[No href])'',
      ''    3. [No text] (href=[No href])'', ''    4. [No text] (href=[No href])'',
      ''    5. [No text] (href=[No href])'', ''    ... (1 more items)''] \<and>
   spec_more_items_line 1 = ''    ... (1 more item)'' \<and>
   last (format_nav \<lparr>nav_attrs = Map.empty, nav_items = replicate 6 Map.empty\<rparr>)
     \<noteq> spec_more_items_line 1"
  by code_simp

section \<open>Properties of the script extractor\<close>

subsection \<open>Markers and the first loop\<close>

lemma is_fence_open_cong: "strip l' = strip l \<Longrightarrow> is_fence_open l' = is_fence_open l"
  by (simp add: is_fence_open_def)

lemma is_fence_close_cong: "strip l' = strip l \<Longrightarrow> is_fence_close l' = is_fence_close l"
  by (simp add: is_fence_close_def)

lemma is_import_line_cong: "strip l' = strip l \<Longrightarrow> is_import_line l' = is_import_line l"
  by (simp add: is_import_line_def)

lemma fence_open_not_blank: "is_fence_open l \<Longrightarrow> \<not> blank l"
  by (auto simp: is_fence_open_def blank_strip startswith_def)

lemma fence_close_not_blank: "is_fence_close l \<Longrightarrow> \<not> blank l"
  by (auto simp: is_fence_close_def blank_strip)

lemma fence_close_not_open: "is_fence_close l \<Longrightarrow> \<not> is_fence_open l"
  by (auto simp: is_fence_close_def is_fence_open_def startswith_def)

lemma same_stripped_no_open:
  "same_stripped xs' xs \<Longrightarrow> \<forall>l\<in>set xs. \<not> is_fence_open l \<Longrightarrow> \<forall>l\<in>set xs'. \<not> is_fence_open l"
  unfolding same_stripped_def by (metis is_fence_open_cong)

lemma same_stripped_no_import:
  "same_stripped xs' xs \<Longrightarrow> \<forall>l\<in>set xs. \<not> is_import_line l \<Longrightarrow> \<forall>l\<in>set xs'. \<not> is_import_line l"
  unfolding same_stripped_def by (metis is_import_line_cong)

lemma fence_scan_no_open:
  "\<forall>l\<in>set ls. \<not> is_fence_open l \<Longrightarrow> fence_scan False ls = []"
  by (induction ls) auto

lemma fence_scan_skip:
  "\<forall>l\<in>set pre. \<not> is_fence_open l \<Longrightarrow> fence_scan False (pre @ rest) = fence_scan False rest"
  by (induction pre) auto

lemma fence_scan_inside:
  "\<forall>l\<in>set body. \<not> is_fence_open l \<and> \<not> is_fence_close l \<Longrightarrow>
   fence_scan True (body @ rest) = body @ fence_scan True rest"
  by (induction body) auto

lemma fence_scan_block:
  assumes "\<forall>l\<in>set pre. \<not> is_fence_open l" "is_fence_open op"
    "\<forall>l\<in>set body. \<not> is_fence_open l \<and> \<not> is_fence_close l" "is_fence_close cl"
  shows "fence_scan False (pre @ op # body @ cl # rest) = body @ fence_scan False rest"
proof -
  have "fence_scan False (pre @ op # body @ cl # rest) = fence_scan False (op # body @ cl # rest)"
    using assms(1) by (rule fence_scan_skip)
  also have "\<dots> = fence_scan True (body @ cl # rest)"
    using assms(2) by simp
  also have "\<dots> = body @ fence_scan True (cl # rest)"
    using assms(3) by (rule fence_scan_inside)
  also have "fence_scan True (cl # rest) = fence_scan False rest"
    using assms(4) fence_close_not_open[OF assms(4)] by simp
  finally show ?thesis .
qed

lemma import_scan_none:
  "\<forall>l\<in>set ls. \<not> is_import_line l \<Longrightarrow> import_scan False ls = []"
  by (induction ls) (auto simp: Let_def)

lemma fence_scan_append:
  "fence_scan b (xs @ ys) = fence_scan b xs @ fence_scan (fence_state b xs) ys"
  by (induction xs arbitrary: b) auto

lemma fence_state_append:
  "fence_state b (xs @ ys) = fence_state (fence_state b xs) ys"
  by (induction xs arbitrary: b) auto

lemma blank_not_open: "blank l \<Longrightarrow> \<not> is_fence_open l"
  using fence_open_not_blank by blast

lemma blank_not_close: "blank l \<Longrightarrow> \<not> is_fence_close l"
  using fence_close_not_blank by blast

lemma fence_state_blanks: "\<forall>w\<in>set ws. blank w \<Longrightarrow> fence_state b ws = b"
  by (induction ws) (auto simp: blank_not_open blank_not_close)

lemma fence_scan_lstrip:
  "fence_scan False (split_nl (lstrip r)) = fence_scan False (split_nl r)"
proof -
  obtain ws l rest where d: "split_nl r = ws @ l # rest" "\<forall>w\<in>set ws. blank w"
    "split_nl (lstrip r) = lstrip l # rest"
    using split_nl_lstrip by blast
  have o: "is_fence_open (lstrip l) = is_fence_open l" by (rule is_fence_open_cong) simp
  from d(2) have "\<forall>w\<in>set ws. \<not> is_fence_open w" by (simp add: blank_not_open)
  then have "fence_scan False (ws @ l # rest) = fence_scan False (l # rest)"
    by (rule fence_scan_skip)
  also have "\<dots> = fence_scan False (lstrip l # rest)" using o by simp
  finally show ?thesis using d by simp
qed

lemma fence_state_lstrip:
  "fence_state False (split_nl (lstrip r)) = fence_state False (split_nl r)"
proof -
  obtain ws l rest where d: "split_nl r = ws @ l # rest" "\<forall>w\<in>set ws. blank w"
    "split_nl (lstrip r) = lstrip l # rest"
    using split_nl_lstrip by blast
  have o: "is_fence_open (lstrip l) = is_fence_open l" by (rule is_fence_open_cong) simp
  have "fence_state False (ws @ l # rest) = fence_state False (l # rest)"
    using d(2) by (simp add: fence_state_append fence_state_blanks)
  also have "\<dots> = fence_state False (lstrip l # rest)" using o by simp
  finally show ?thesis using d by simp
qed

lemma fence_scan_rstrip:
  assumes "fence_state False (split_nl r) = False"
  shows "fence_scan False (split_nl (rstrip r)) = fence_scan False (split_nl r)"
proof -
  obtain init l ws where d: "split_nl r = init @ l # ws" "\<forall>w\<in>set ws. blank w"
    "split_nl (rstrip r) = init @ [rstrip l]"
    using split_nl_rstrip by blast
  define s where "s = fence_state False init"
  have o: "is_fence_open (rstrip l) = is_fence_open l" by (rule is_fence_open_cong) simp
  have c: "is_fence_close (rstrip l) = is_fence_close l" by (rule is_fence_close_cong) simp
  have nb: "\<forall>w\<in>set ws. \<not> is_fence_open w" using d(2) by (simp add: blank_not_open)
  from assms d have fin: "fence_state s (l # ws) = False"
    by (simp add: fence_state_append s_def)
  have "fence_scan s (l # ws) = fence_scan s [rstrip l]"
  proof (cases "is_fence_open l")
    case True
    with fin d(2) show ?thesis by (simp add: fence_state_blanks)
  next
    case False
    show ?thesis
    proof (cases "is_fence_close l \<and> s")
      case True
      with False o c nb show ?thesis by (simp add: fence_scan_no_open)
    next
      case nc: False
      with False fin d(2) have "s = False" by (auto simp: fence_state_blanks)
      with False o c nb show ?thesis by (simp add: fence_scan_no_open)
    qed
  qed
  then show ?thesis using d by (simp add: fence_scan_append s_def)
qed

lemma fence_scan_strip:
  assumes "fence_state False (split_nl r) = False"
  shows "fence_scan False (split_nl (strip r)) = fence_scan False (split_nl r)"
proof -
  from assms have "fence_state False (split_nl (lstrip r)) = False"
    by (simp add: fence_state_lstrip)
  then have "fence_scan False (split_nl (rstrip (lstrip r))) = fence_scan False (split_nl (lstrip r))"
    by (rule fence_scan_rstrip)
  then show ?thesis by (simp add: strip_def fence_scan_lstrip)
qed

lemma fence_scan_segments:
  "list_all segment_ok segs \<Longrightarrow>
   fence_scan False (concat (map segment_lines segs)) = concat (map segment_code segs) \<and>
   fence_state False (concat (map segment_lines segs)) = False"
proof (induction segs)
  case Nil
  show ?case by simp
next
  case (Cons sg segs)
  then have IH: "fence_scan False (concat (map segment_lines segs)) = concat (map segment_code segs)"
    "fence_state False (concat (map segment_lines segs)) = False"
    and ok: "segment_ok sg" by simp_all
  show ?case
  proof (cases sg)
    case (Prose ls)
    with ok have n: "\<forall>l\<in>set ls. \<not> is_fence_open l" by (simp add: list_all_iff)
    then have "fence_state False ls = False" by (induction ls) auto
    with n IH Prose show ?thesis
      by (simp add: fence_scan_append fence_state_append fence_scan_no_open)
  next
    case (Fenced op body cl)
    with ok have f: "is_fence_open op" "is_fence_close cl"
      "\<forall>l\<in>set body. \<not> is_fence_open l \<and> \<not> is_fence_close l" by (simp_all add: list_all_iff)
    from f(3) have st: "fence_state True (body @ rest) = fence_state True rest" for rest
      by (induction body) auto
    have sc: "fence_scan False ([] @ op # body @ cl # rest) = body @ fence_scan False rest" for rest
      by (rule fence_scan_block) (use f in simp_all)
    have "fence_state False (op # body @ cl # rest) = fence_state False rest" for rest
      using f(1,2) st fence_close_not_open[OF f(2)] by simp
    with sc IH Fenced show ?thesis by simp
  qed
qed

subsection \<open>A single fenced block\<close>

text \<open>
  Claim C5.  The lines of the reply are some lines without an opening marker, an opening
  marker line, at least one line of code, none of them a marker, a closing marker line,
  and lines without an opening marker.  Then the extractor returns the lines between the
  two markers joined by newlines: split at the newlines, its result is exactly these
  lines, in order and unchanged, so neither marker line is part of it.
\<close>

theorem fenced_block_extracted:
  assumes "split_nl response = pre @ op # body @ cl # post"
    and "is_fence_open op" and "is_fence_close cl" and "body \<noteq> []"
    and "\<forall>l\<in>set pre. \<not> is_fence_open l"
    and "\<forall>l\<in>set body. \<not> is_fence_open l \<and> \<not> is_fence_close l"
    and "\<forall>l\<in>set post. \<not> is_fence_open l"
  shows "extract_code_from_response response = join ''\<newline>'' body \<and>
         split_nl (extract_code_from_response response) = body"
proof -
  from lines_strip_two_anchors[OF assms(1) fence_open_not_blank[OF assms(2)]
        fence_close_not_blank[OF assms(3)]]
  obtain pre' op' cl' post' where
    s: "split_nl (strip response) = pre' @ op' # body @ cl' # post'"
       "strip op' = strip op" "strip cl' = strip cl"
       "same_stripped pre' pre" "same_stripped post' post"
    by blast
  have o: "is_fence_open op'" using s(2) assms(2) is_fence_open_cong by blast
  have c: "is_fence_close cl'" using s(3) assms(3) is_fence_close_cong by blast
  have p: "\<forall>l\<in>set pre'. \<not> is_fence_open l"
    using same_stripped_no_open[OF s(4) assms(5)] .
  have q: "fence_scan False post' = []"
    using same_stripped_no_open[OF s(5) assms(7)] by (rule fence_scan_no_open)
  have "fence_scan False (split_nl (strip response)) = body"
    unfolding s(1) using fence_scan_block[OF p o assms(6) c, of post'] q by simp
  with assms(4) have e: "extract_code_from_response response = join ''\<newline>'' body"
    by (simp add: extract_code_from_response_def Let_def)
  have "\<forall>l\<in>set body. CHR ''\<newline>'' \<notin> set l"
    using split_nl_no_newline[of _ response] assms(1) by auto
  with assms(4) have "split_nl (join ''\<newline>'' body) = body"
    by (simp add: split_nl_join)
  with e show ?thesis by simp
qed

theorem fenced_block_extracted_witness:
  "is_fence_open ''```python'' \<and> is_fence_close ''```'' \<and>
   extract_code_from_response
     ''Here:\<newline>```python\<newline>import x\<newline>  y = 1\<newline>```\<newline>bye''
     = ''import x\<newline>  y = 1''"
proof -
  have h1: "split_nl ''Here:\<newline>```python\<newline>import x\<newline>  y = 1\<newline>```\<newline>bye''
      = [''Here:''] @ ''```python'' # [''import x'', ''  y = 1''] @ ''```'' # [''bye'']"
    by code_simp
  have h2: "is_fence_open ''```python''" by code_simp
  have h3: "is_fence_close ''```''" by code_simp
  have h4: "[''import x'', ''  y = 1''] \<noteq> []" by simp
  have h5: "\<forall>l\<in>set [''Here:'']. \<not> is_fence_open l" by code_simp
  have h6: "\<forall>l\<in>set [''import x'', ''  y = 1'']. \<not> is_fence_open l \<and> \<not> is_fence_close l"
    by code_simp
  have h7: "\<forall>l\<in>set [''bye'']. \<not> is_fence_open l" by code_simp
  from fenced_block_extracted[OF h1 h2 h3 h4 h5 h6 h7] h2 h3 show ?thesis by simp
qed

subsection \<open>A reply without markers or imports\<close>

text \<open>
  Claim C6, as the code has it.  When no line of the reply is an opening marker and no
  line, stripped, starts with \<open>import \<close> or \<open>from \<close>, the extractor returns the reply
  with the whitespace at its two ends removed, not the reply unchanged: the reply
  \<open>x = 1\<close> followed by a newline gives \<open>x = 1\<close>.
\<close>

theorem plain_reply_is_trimmed:
  assumes "\<forall>l\<in>set (split_nl response). \<not> is_fence_open l \<and> \<not> is_import_line l"
  shows "extract_code_from_response response = strip response"
proof -
  have ss: "same_stripped (split_nl (strip response)) (split_nl response)"
    by (rule lines_strip_subset)
  from assms have "\<forall>l\<in>set (split_nl response). \<not> is_fence_open l" by blast
  from same_stripped_no_open[OF ss this]
  have a: "fence_scan False (split_nl (strip response)) = []" by (rule fence_scan_no_open)
  from assms have "\<forall>l\<in>set (split_nl response). \<not> is_import_line l" by blast
  from same_stripped_no_import[OF ss this]
  have b: "import_scan False (split_nl (strip response)) = []" by (rule import_scan_none)
  from a b show ?thesis
    by (simp add: extract_code_from_response_def Let_def join_split_nl)
qed

theorem plain_reply_is_trimmed_witness:
  "extract_code_from_response ''  print(1)\<newline>print(2)\<newline>'' = ''print(1)\<newline>print(2)''"
proof -
  have h: "\<forall>l\<in>set (split_nl ''  print(1)\<newline>print(2)\<newline>''). \<not> is_fence_open l \<and> \<not> is_import_line l"
    by code_simp
  have "strip ''  print(1)\<newline>print(2)\<newline>'' = ''print(1)\<newline>print(2)''" by code_simp
  with plain_reply_is_trimmed[OF h] show ?thesis by simp
qed

theorem plain_reply_unchanged_counterexample:
  "list_all (\<lambda>l. \<not> is_fence_open l \<and> \<not> is_fence_close l \<and> \<not> is_import_line l)
     (split_nl ''x = 1\<newline>'') \<and>
   extract_code_from_response ''x = 1\<newline>'' = ''x = 1'' \<and>
   extract_code_from_response ''x = 1\<newline>'' \<noteq> ''x = 1\<newline>''"
  by code_simp

subsection \<open>An open block, and several blocks\<close>

lemma fence_scan_open_rest:
  "\<forall>l\<in>set rest. \<not> is_fence_close l \<Longrightarrow>
   fence_scan True rest = filter (\<lambda>l. \<not> is_fence_open l) rest"
  by (induction rest) auto

lemma fence_scan_at_open:
  assumes "is_fence_open op" "\<forall>l\<in>set rest. \<not> is_fence_close l"
  shows "fence_scan False (pre @ op # rest) =
           fence_scan False pre @ filter (\<lambda>l. \<not> is_fence_open l) rest"
proof -
  have "fence_scan (fence_state False pre) (op # rest) = fence_scan True rest"
    using assms(1) by simp
  with fence_scan_open_rest[OF assms(2)] show ?thesis
    by (simp add: fence_scan_append)
qed

text \<open>
  Claim C9, as the code has it.  The extractor works on the stripped reply, and what it
  returns is the collected lines only when there is one.  First, when the stripped reply
  has an opening marker line and no closing marker after it, the first loop collects
  what it collects from the lines before that marker, closed blocks included, and then
  every line after the marker that is not itself an opening marker, through the end of
  the stripped reply; these lines joined are the result when there is one.  Second, when
  the reply is prose and closed fenced blocks, the result is the lines inside the blocks,
  block after block, provided there is one; the prose is left out.  As stated the claim
  fails: a last line of whitespace after an open block is not collected, a further
  opening marker inside an open block is not collected, and when every block is empty
  the whole reply is returned, markers and prose included.
\<close>

theorem fenced_blocks_collected:
  "(split_nl (strip response) = pre @ op # rest \<and> is_fence_open op \<and>
      list_all (\<lambda>l. \<not> is_fence_close l) rest
    \<longrightarrow> fence_scan False (split_nl (strip response))
          = fence_scan False pre @ filter (\<lambda>l. \<not> is_fence_open l) rest \<and>
        (fence_scan False pre @ filter (\<lambda>l. \<not> is_fence_open l) rest \<noteq> [] \<longrightarrow>
           extract_code_from_response response
           = join ''\<newline>'' (fence_scan False pre @ filter (\<lambda>l. \<not> is_fence_open l) rest))) \<and>
   (split_nl response = concat (map segment_lines segs) \<and> list_all segment_ok segs \<and>
      concat (map segment_code segs) \<noteq> []
    \<longrightarrow> extract_code_from_response response
          = join ''\<newline>'' (concat (map segment_code segs)))"
proof (intro conjI impI)
  assume a: "split_nl (strip response) = pre @ op # rest \<and> is_fence_open op \<and>
      list_all (\<lambda>l. \<not> is_fence_close l) rest"
  then have "fence_scan False (pre @ op # rest) =
           fence_scan False pre @ filter (\<lambda>l. \<not> is_fence_open l) rest"
    by (intro fence_scan_at_open) (simp_all add: list_all_iff)
  with a show c: "fence_scan False (split_nl (strip response))
          = fence_scan False pre @ filter (\<lambda>l. \<not> is_fence_open l) rest"
    by simp
  assume ne: "fence_scan False pre @ filter (\<lambda>l. \<not> is_fence_open l) rest \<noteq> []"
  define code where "code = fence_scan False pre @ filter (\<lambda>l. \<not> is_fence_open l) rest"
  from c ne have "fence_scan False (split_nl (strip response)) = code" "code \<noteq> []"
    by (simp_all add: code_def)
  then have "extract_code_from_response response = join ''\<newline>'' code"
    by (simp add: extract_code_from_response_def Let_def)
  then show "extract_code_from_response response
           = join ''\<newline>'' (fence_scan False pre @ filter (\<lambda>l. \<not> is_fence_open l) rest)"
    by (simp add: code_def)
next
  assume b: "split_nl response = concat (map segment_lines segs) \<and> list_all segment_ok segs \<and>
      concat (map segment_code segs) \<noteq> []"
  define code where "code = concat (map segment_code segs)"
  from b fence_scan_segments[of segs] have
    "fence_scan False (split_nl response) = code"
    "fence_state False (split_nl response) = False" by (simp_all add: code_def)
  with fence_scan_strip[of response] have
    "fence_scan False (split_nl (strip response)) = code" by simp
  moreover from b have "code \<noteq> []" by (simp add: code_def)
  ultimately have "extract_code_from_response response = join ''\<newline>'' code"
    by (simp add: extract_code_from_response_def Let_def)
  then show "extract_code_from_response response
          = join ''\<newline>'' (concat (map segment_code segs))"
    by (simp add: code_def)
qed

theorem fenced_blocks_collected_witness:
  "extract_code_from_response
     ''Intro\<newline>```python\<newline>a = 1\<newline>```\<newline>then\<newline>```python\<newline>b = 2\<newline>c = 3''
     = ''a = 1\<newline>b = 2\<newline>c = 3'' \<and>
   extract_code_from_response
     ''Intro\<newline>```python\<newline>a = 1\<newline>```\<newline>then\<newline>```python\<newline>b = 2\<newline>```\<newline>''
     = ''a = 1\<newline>b = 2''"
proof -
  have a: "split_nl (strip ''Intro\<newline>```python\<newline>a = 1\<newline>```\<newline>then\<newline>```python\<newline>b = 2\<newline>c = 3'')
       = [''Intro'', ''```python'', ''a = 1'', ''```'', ''then''] @ ''```python'' # [''b = 2'', ''c = 3''] \<and>
      is_fence_open ''```python'' \<and>
      list_all (\<lambda>l. \<not> is_fence_close l) [''b = 2'', ''c = 3'']"
    by code_simp
  have ne: "fence_scan False [''Intro'', ''```python'', ''a = 1'', ''```'', ''then''] @
      filter (\<lambda>l. \<not> is_fence_open l) [''b = 2'', ''c = 3''] \<noteq> []"
    by code_simp
  have a': "join ''\<newline>'' (fence_scan False [''Intro'', ''```python'', ''a = 1'', ''```'', ''then''] @
      filter (\<lambda>l. \<not> is_fence_open l) [''b = 2'', ''c = 3'']) = ''a = 1\<newline>b = 2\<newline>c = 3''"
    by code_simp
  have b: "split_nl ''Intro\<newline>```python\<newline>a = 1\<newline>```\<newline>then\<newline>```python\<newline>b = 2\<newline>```\<newline>''
      = concat (map segment_lines [Prose [''Intro''], Fenced ''```python'' [''a = 1''] ''```'',
          Prose [''then''], Fenced ''```python'' [''b = 2''] ''```'', Prose ['''']]) \<and>
      list_all segment_ok [Prose [''Intro''], Fenced ''```python'' [''a = 1''] ''```'',
          Prose [''then''], Fenced ''```python'' [''b = 2''] ''```'', Prose ['''']] \<and>
      concat (map segment_code [Prose [''Intro''], Fenced ''```python'' [''a = 1''] ''```'',
          Prose [''then''], Fenced ''```python'' [''b = 2''] ''```'', Prose ['''']]) \<noteq> []"
    by code_simp
  have b': "join ''\<newline>'' (concat (map segment_code [Prose [''Intro''], Fenced ''```python'' [''a = 1''] ''```'',
          Prose [''then''], Fenced ''```python'' [''b = 2''] ''```'', Prose [''''] ])) = ''a = 1\<newline>b = 2''"
    by code_simp
  have 1: "extract_code_from_response
     ''Intro\<newline>```python\<newline>a = 1\<newline>```\<newline>then\<newline>```python\<newline>b = 2\<newline>c = 3''
     = ''a = 1\<newline>b = 2\<newline>c = 3''"
    by (rule trans[OF fenced_blocks_collected[THEN conjunct1, THEN mp, OF a, THEN conjunct2,
          THEN mp, OF ne] a'])
  have 2: "extract_code_from_response
     ''Intro\<newline>```python\<newline>a = 1\<newline>```\<newline>then\<newline>```python\<newline>b = 2\<newline>```\<newline>''
     = ''a = 1\<newline>b = 2''"
    by (rule trans[OF fenced_blocks_collected[THEN conjunct2, THEN mp, OF b] b'])
  from 1 2 show ?thesis by simp
qed

theorem fenced_blocks_collected_counterexample:
  "split_nl ''```python\<newline>x = 1\<newline>  '' = [''```python'', ''x = 1'', ''  ''] \<and>
   is_fence_open ''```python'' \<and>
   list_all (\<lambda>l. \<not> is_fence_close l) [''x = 1'', ''  ''] \<and>
   extract_code_from_response ''```python\<newline>x = 1\<newline>  '' = ''x = 1'' \<and>
   split_nl ''```python\<newline>a\<newline>```python\<newline>b'' = [''```python'', ''a'', ''```python'', ''b''] \<and>
   list_all (\<lambda>l. \<not> is_fence_close l) [''a'', ''```python'', ''b''] \<and>
   extract_code_from_response ''```python\<newline>a\<newline>```python\<newline>b'' = ''a\<newline>b'' \<and>
   split_nl ''a\<newline>```python\<newline>```\<newline>b\<newline>```python\<newline>```'' =
     concat (map segment_lines [Prose [''a''], Fenced ''```python'' [] ''```'', Prose [''b''],
                                 Fenced ''```python'' [] ''```'']) \<and>
   list_all segment_ok [Prose [''a''], Fenced ''```python'' [] ''```'', Prose [''b''],
                        Fenced ''```python'' [] ''```''] \<and>
   extract_code_from_response ''a\<newline>```python\<newline>```\<newline>b\<newline>```python\<newline>```''
     = ''a\<newline>```python\<newline>```\<newline>b\<newline>```python\<newline>```''"
  by code_simp

section \<open>Properties of the two save methods\<close>

text \<open>
  Claim C8.  When creating the directory or writing the spreadsheet raises an instance
  of \<open>Exception\<close>, \<open>save_test_cases\<close> prints the error and returns \<open>False\<close>, and no
  instance of \<open>Exception\<close> ever leaves it; whatever \<open>to_excel\<close> raises in
  \<open>save_scripts\<close> leaves that method.
\<close>

theorem save_failures:
  "(self_tcs \<noteq> [] \<and>
      (makedirs_parent fs path = Some (ExceptionInstance msg) \<or>
       makedirs_parent fs path = None \<and>
       to_excel fs path (map processed_case self_tcs) = Some (ExceptionInstance msg))
    \<longrightarrow> save_test_cases fs self_tcs path
          = Inr (False, [''Error saving test cases to Excel: '' @ msg])) \<and>
   save_test_cases fs self_tcs path \<noteq> Inl (ExceptionInstance msg) \<and>
   (to_excel fs path (map script_row scripts) = Some e
    \<longrightarrow> save_scripts fs scripts path = Inl e)"
  by (auto simp: save_test_cases_def save_handler_def save_scripts_def
           split: option.splits py_exception.splits)

theorem save_failures_witness:
  "save_test_cases
      \<lparr>makedirs_parent = (\<lambda>p. None),
       to_excel = (\<lambda>p rows. Some (ExceptionInstance ''Permission denied''))\<rparr>
      [\<lparr>test_case_id = ''TC-1'', test_scenario = ''A'', steps_to_execute = [''Open''],
        expected_result = ''Shown''\<rparr>] ''out/test_cases.xlsx''
     = Inr (False, [''Error saving test cases to Excel: Permission denied'']) \<and>
   save_scripts
      \<lparr>makedirs_parent = (\<lambda>p. None),
       to_excel = (\<lambda>p rows. Some (ExceptionInstance ''Permission denied''))\<rparr>
      [\<lparr>script_test_case_id = ''TC-1'', script_test_scenario = ''A'',
        python_selenium_code = ''pass''\<rparr>] ''out/test_scripts.xlsx''
     = Inl (ExceptionInstance ''Permission denied'')"
  using save_failures [of
      "[\<lparr>test_case_id = ''TC-1'', test_scenario = ''A'', steps_to_execute = [''Open''],
        expected_result = ''Shown''\<rparr>]"
      "\<lparr>makedirs_parent = (\<lambda>p. None),
       to_excel = (\<lambda>p rows. Some (ExceptionInstance ''Permission denied''))\<rparr>"
      "''out/test_cases.xlsx''" "''Permission denied''"]
    save_failures [of "[]"
      "\<lparr>makedirs_parent = (\<lambda>p. None),
       to_excel = (\<lambda>p rows. Some (ExceptionInstance ''Permission denied''))\<rparr>"
      "''out/test_scripts.xlsx''" "''x''"
      "[\<lparr>script_test_case_id = ''TC-1'', script_test_scenario = ''A'',
        python_selenium_code = ''pass''\<rparr>]" "ExceptionInstance ''Permission denied''"]
  by simp

end
